theory Spec2Isabelle
  imports Main "HOL-Library.List_Lexorder"
begin

section \<open>Strings, characters and the runtime's Unicode tables\<close>

text \<open>
  A Python \<open>str\<close> is a sequence of Unicode code points; offsets and \<open>len\<close> count code
  points. A code point is a natural number and a string a list of them. The source
  compares, sorts and slices strings by code point, and so does the model.

  What the source does to ASCII characters is written out here. What the Python runtime
  does to characters beyond ASCII (its Unicode database: white space, word characters,
  case mappings, case-insensitive matching) is not code of this repository; it is the
  parameter \<open>U\<close> of every function that depends on it, and every theorem holds for all
  such tables.
\<close>

type_synonym cp = nat
type_synonym str = "cp list"

datatype py_error = IndexError | FileNotFoundError | RuntimeError

record unicode_db =
  u_isspace :: "cp \<Rightarrow> bool"
  u_isword :: "cp \<Rightarrow> bool"
  u_ci_match :: "cp \<Rightarrow> cp \<Rightarrow> bool"
  u_lower :: "str \<Rightarrow> str"
  u_upper :: "str \<Rightarrow> str"
  u_isupper :: "str \<Rightarrow> bool"
  u_isdigit :: "str \<Rightarrow> bool"
  u_isalpha :: "cp \<Rightarrow> bool"

text \<open>A string literal of the source, as code points.\<close>

definition py :: "string \<Rightarrow> str" where
  "py s = map of_char s"

definition is_ascii :: "cp \<Rightarrow> bool" where
  "is_ascii c = (c < 128)"

definition upper_AZ :: "cp \<Rightarrow> bool" where
  "upper_AZ c = (65 \<le> c \<and> c \<le> 90)"

definition lower_az :: "cp \<Rightarrow> bool" where
  "lower_az c = (97 \<le> c \<and> c \<le> 122)"

definition letter :: "cp \<Rightarrow> bool" where
  "letter c = (upper_AZ c \<or> lower_az c)"

definition digit :: "cp \<Rightarrow> bool" where
  "digit c = (48 \<le> c \<and> c \<le> 57)"

definition ascii_lower :: "cp \<Rightarrow> cp" where
  "ascii_lower c = (if upper_AZ c then c + 32 else c)"

definition ascii_upper :: "cp \<Rightarrow> cp" where
  "ascii_upper c = (if lower_az c then c - 32 else c)"

text \<open>\<open>str.lower()\<close> and \<open>str.upper()\<close>: character by character on an ASCII string,
  the runtime's full case mapping otherwise.\<close>

definition lower :: "unicode_db \<Rightarrow> str \<Rightarrow> str" where
  "lower U s = (if list_all is_ascii s then map ascii_lower s else u_lower U s)"

definition upper :: "unicode_db \<Rightarrow> str \<Rightarrow> str" where
  "upper U s = (if list_all is_ascii s then map ascii_upper s else u_upper U s)"

text \<open>\<open>str.isspace\<close> of one character, which is also the class \<open>\s\<close> of \<open>re\<close> on
  \<open>str\<close> patterns and what \<open>str.strip()\<close> removes: in ASCII the characters 9 to 13,
  28 to 31 and the space.\<close>

definition isspace :: "unicode_db \<Rightarrow> cp \<Rightarrow> bool" where
  "isspace U c =
     (if is_ascii c then (9 \<le> c \<and> c \<le> 13) \<or> (28 \<le> c \<and> c \<le> 32) else u_isspace U c)"

text \<open>The class \<open>\w\<close>: in ASCII the letters, the digits and the underscore.\<close>

definition word_char :: "unicode_db \<Rightarrow> cp \<Rightarrow> bool" where
  "word_char U c = (if is_ascii c then letter c \<or> digit c \<or> c = 95 else u_isword U c)"

definition strip :: "unicode_db \<Rightarrow> str \<Rightarrow> str" where
  "strip U s = rev (dropWhile (isspace U) (rev (dropWhile (isspace U) s)))"

definition startswith :: "str \<Rightarrow> str \<Rightarrow> bool" where
  "startswith s p = (take (length p) s = p)"

definition endswith :: "str \<Rightarrow> str \<Rightarrow> bool" where
  "endswith s e = (length e \<le> length s \<and> drop (length s - length e) s = e)"

text \<open>\<open>p in s\<close> on strings: \<open>p\<close> occurs in \<open>s\<close> as a contiguous substring.\<close>

fun str_in :: "str \<Rightarrow> str \<Rightarrow> bool" where
  "str_in p [] = (p = [])"
| "str_in p (c # cs) = (startswith (c # cs) p \<or> str_in p cs)"

text \<open>\<open>s[-k]\<close> for \<open>k \<ge> 1\<close>: the \<open>k\<close>-th character from the end, IndexError when the
  string is shorter.\<close>

definition neg_index :: "str \<Rightarrow> nat \<Rightarrow> py_error + cp" where
  "neg_index s k = (if 0 < k \<and> k \<le> length s then Inr (s ! (length s - k)) else Inl IndexError)"

text \<open>Sequencing of steps that may raise: the first exception ends the computation.\<close>

definition then_do :: "py_error + 'a \<Rightarrow> ('a \<Rightarrow> py_error + 'b) \<Rightarrow> py_error + 'b" where
  "then_do m f = (case m of Inl e \<Rightarrow> Inl e | Inr v \<Rightarrow> f v)"

section \<open>Morphology helpers\<close>

definition is_vowel :: "unicode_db \<Rightarrow> str \<Rightarrow> bool" where
  "is_vowel U c = str_in (lower U c) (py ''aeiou'')"

definition ends_with_any :: "str \<Rightarrow> str list \<Rightarrow> bool" where
  "ends_with_any w endings = list_ex (endswith w) endings"

definition double_final_consonant_for_ing_ed :: "unicode_db \<Rightarrow> str \<Rightarrow> py_error + bool" where
  "double_final_consonant_for_ing_ed U w =
     (if length w < 3 then Inr False
      else then_do (neg_index w 1) (\<lambda>c1.
        let last = lower U [c1] in
        if str_in last (py ''wxy'') then Inr False
        else if is_vowel U last then Inr False
        else then_do (neg_index w 2) (\<lambda>c2.
          if \<not> is_vowel U [c2] then Inr False
          else then_do (neg_index w 3) (\<lambda>c3. Inr (\<not> is_vowel U [c3])))))"

text \<open>The test \<open>low.endswith("y") and len(b) > 1 and not _is_vowel(b[-2])\<close>, evaluated
  left to right, which both \<open>_verb_inflections\<close> and \<open>_plural_forms\<close> use.\<close>

definition consonant_y :: "unicode_db \<Rightarrow> str \<Rightarrow> str \<Rightarrow> py_error + bool" where
  "consonant_y U b low =
     (if endswith low (py ''y'') \<and> length b > 1
      then then_do (neg_index b 2) (\<lambda>c. Inr (\<not> is_vowel U [c]))
      else Inr False)"

text \<open>The three parts of \<open>_verb_inflections\<close>: third person singular, past, -ing.\<close>

definition third_singular :: "unicode_db \<Rightarrow> str \<Rightarrow> str \<Rightarrow> py_error + str" where
  "third_singular U b low =
     (if ends_with_any low [py ''s'', py ''x'', py ''z'', py ''ch'', py ''sh'', py ''o'']
      then Inr (b @ py ''ES'')
      else then_do (consonant_y U b low) (\<lambda>cy.
        if cy then Inr (butlast b @ py ''IES'') else Inr (b @ py ''S'')))"

definition past_form :: "unicode_db \<Rightarrow> str \<Rightarrow> str \<Rightarrow> py_error + str" where
  "past_form U b low =
     (if endswith low (py ''e'') then Inr (b @ py ''D'')
      else then_do (double_final_consonant_for_ing_ed U low) (\<lambda>dbl.
        if dbl then then_do (neg_index b 1) (\<lambda>c. Inr (b @ [c] @ py ''ED''))
        else Inr (b @ py ''ED'')))"

definition ing_form :: "unicode_db \<Rightarrow> str \<Rightarrow> str \<Rightarrow> py_error + str" where
  "ing_form U b low =
     (if endswith low (py ''ie'') then Inr (take (length b - 2) b @ py ''YING'')
      else if endswith low (py ''e'') \<and> \<not> endswith low (py ''ee'') then Inr (butlast b @ py ''ING'')
      else then_do (double_final_consonant_for_ing_ed U low) (\<lambda>dbl.
        if dbl then then_do (neg_index b 1) (\<lambda>c. Inr (b @ [c] @ py ''ING''))
        else Inr (b @ py ''ING'')))"

definition verb_inflections :: "unicode_db \<Rightarrow> str \<Rightarrow> py_error + str set" where
  "verb_inflections U b =
     (let low = lower U b in
      then_do (third_singular U b low) (\<lambda>t.
      then_do (past_form U b low) (\<lambda>p.
      then_do (ing_form U b low) (\<lambda>g. Inr {b, t, p, g}))))"

definition plural_forms :: "unicode_db \<Rightarrow> str \<Rightarrow> py_error + str set" where
  "plural_forms U b =
     (let low = lower U b in
      if ends_with_any low [py ''s'', py ''x'', py ''z'', py ''ch'', py ''sh'']
      then Inr {b, b @ py ''ES''}
      else then_do (consonant_y U b low) (\<lambda>cy.
        if cy then Inr {b, butlast b @ py ''IES''} else Inr {b, b @ py ''S''}))"

section \<open>Regular expressions of the source\<close>

text \<open>
  Python's \<open>re\<close> is a backtracking matcher: at a position it tries the alternatives of a
  pattern in order and, for a greedy quantifier, the longest repetition first, then
  shorter ones, and returns the first way that lets the rest of the pattern match. Each
  pattern of the source is written below as a function from the text and a start position
  to the end of the match there (and its groups), with that order of attempts written
  out: \<open>first_some\<close> tries candidates in order, \<open>greedy\<close> tries the repetitions of a
  character class from the longest down to the minimum.
\<close>

definition slice :: "str \<Rightarrow> nat \<Rightarrow> nat \<Rightarrow> str" where
  "slice text a b = take (b - a) (drop a text)"

text \<open>The character at a position satisfies a class (false at the end of the text).\<close>

definition sat :: "str \<Rightarrow> nat \<Rightarrow> (cp \<Rightarrow> bool) \<Rightarrow> bool" where
  "sat text i P = (i < length text \<and> P (text ! i))"

fun first_some :: "('a \<Rightarrow> 'b option) \<Rightarrow> 'a list \<Rightarrow> 'b option" where
  "first_some k [] = None"
| "first_some k (x # xs) = (case k x of Some r \<Rightarrow> Some r | None \<Rightarrow> first_some k xs)"

text \<open>\<open>greedy cls lo text i k\<close>: at least \<open>lo\<close> characters of class \<open>cls\<close> from position
  \<open>i\<close>, then the continuation \<open>k\<close> from the position reached.\<close>

definition greedy :: "(cp \<Rightarrow> bool) \<Rightarrow> nat \<Rightarrow> str \<Rightarrow> nat \<Rightarrow> (nat \<Rightarrow> 'a option) \<Rightarrow> 'a option" where
  "greedy cls lo text i k =
     first_some k (rev [i + lo ..< Suc (i + length (takeWhile cls (drop i text)))])"

text \<open>A literal string of a pattern compiled without flags.\<close>

definition match_lit :: "str \<Rightarrow> str \<Rightarrow> nat \<Rightarrow> bool" where
  "match_lit p text i = (slice text i (i + length p) = p)"

text \<open>A letter of a pattern compiled with IGNORECASE, given in lower case: it matches an
  ASCII character whose lower case it is; which characters beyond ASCII it matches is the
  runtime's business.\<close>

definition lit_ci :: "unicode_db \<Rightarrow> cp \<Rightarrow> cp \<Rightarrow> bool" where
  "lit_ci U p c = (if is_ascii c then ascii_lower c = p else u_ci_match U p c)"

definition match_ci :: "unicode_db \<Rightarrow> str \<Rightarrow> str \<Rightarrow> nat \<Rightarrow> bool" where
  "match_ci U p text i = list_all2 (lit_ci U) p (slice text i (i + length p))"

text \<open>\<open>\b\<close>: exactly one of the characters before and after the position is a word
  character; the ends of the text count as non-word characters.\<close>

definition boundary :: "unicode_db \<Rightarrow> str \<Rightarrow> nat \<Rightarrow> bool" where
  "boundary U text i = ((0 < i \<and> sat text (i - 1) (word_char U)) \<noteq> sat text i (word_char U))"

text \<open>
  \<open>finditer\<close>: the matches of a pattern from left to right, without overlap. The search
  tries every position from the current one up to the end of the text and resumes at the
  end of the match found. Every pattern of the source consumes at least one character
  (the lemmas \<open>*_progress\<close> below), so the step past an empty match is never taken; it is
  there for the recursion to terminate on any matcher.
\<close>

function finditer_from :: "(str \<Rightarrow> nat \<Rightarrow> (nat \<times> 'g) option) \<Rightarrow> str \<Rightarrow> nat \<Rightarrow> (nat \<times> nat \<times> 'g) list" where
  "finditer_from m text i =
     (if length text < i then []
      else case m text i of
             None \<Rightarrow> finditer_from m text (Suc i)
           | Some (e, g) \<Rightarrow> (i, e, g) # finditer_from m text (if i < e then e else Suc i))"
  by pat_completeness auto
termination
  by (relation "measure (\<lambda>(m, text, i). Suc (length text) - i)") auto

definition finditer :: "(str \<Rightarrow> nat \<Rightarrow> (nat \<times> 'g) option) \<Rightarrow> str \<Rightarrow> (nat \<times> nat \<times> 'g) list" where
  "finditer m text = finditer_from m text 0"

section \<open>Linter core\<close>

subsection \<open>Word lists on disk\<close>

text \<open>
  The file system as the linter sees it: a path either does not exist or names a text file,
  given by its decoded text as the text layer delivers it (after newline translation).
\<close>

type_synonym path = str
type_synonym filesystem = "path \<Rightarrow> str option"

definition path_exists :: "filesystem \<Rightarrow> path \<Rightarrow> bool" where
  "path_exists fs p = (fs p \<noteq> None)"

text \<open>Iterating over a text file: the lines, each with its newline when it has one.\<close>

function lines_of :: "str \<Rightarrow> str list" where
  "lines_of s =
     (if s = [] then []
      else case dropWhile (\<lambda>c. c \<noteq> 10) s of
             [] \<Rightarrow> [s]
           | nl # rest \<Rightarrow> (takeWhile (\<lambda>c. c \<noteq> 10) s @ [nl]) # lines_of rest)"
  by pat_completeness auto
termination
proof (relation "measure length")
  show "wf (measure length)" by simp
next
  fix s :: str and nl rest
  assume "dropWhile (\<lambda>c. c \<noteq> 10) s = nl # rest"
  then have "length (nl # rest) \<le> length s"
    by (metis length_dropWhile_le)
  then show "(rest, s) \<in> measure length" by simp
qed

definition load_wordlist :: "unicode_db \<Rightarrow> filesystem \<Rightarrow> path \<Rightarrow> py_error + str set" where
  "load_wordlist U fs p =
     (case fs p of
        None \<Rightarrow> Inl FileNotFoundError
      | Some content \<Rightarrow> Inr (set (filter (\<lambda>l. l \<noteq> []) (map (strip U) (lines_of content)))))"

subsection \<open>Tokens and sentences\<close>

text \<open>The pattern \<^verbatim>\<open>[A-Za-z][A-Za-z0-9\-\/']*\<close>.\<close>

definition tok_char :: "cp \<Rightarrow> bool" where
  "tok_char c = (letter c \<or> digit c \<or> c = 45 \<or> c = 47 \<or> c = 39)"

definition token_match :: "str \<Rightarrow> nat \<Rightarrow> (nat \<times> unit) option" where
  "token_match text i =
     (if sat text i letter then greedy tok_char 0 text (Suc i) (\<lambda>j. Some (j, ())) else None)"

definition tokenize_words_with_spans :: "str \<Rightarrow> (str \<times> nat \<times> nat) list" where
  "tokenize_words_with_spans text =
     map (\<lambda>(s, e, g). (slice text s e, s, e)) (finditer token_match text)"

text \<open>The pattern \<^verbatim>\<open>([\.!\?])\<close>.\<close>

definition terminator :: "cp \<Rightarrow> bool" where
  "terminator c = (c = 46 \<or> c = 33 \<or> c = 63)"

definition terminator_match :: "str \<Rightarrow> nat \<Rightarrow> (nat \<times> unit) option" where
  "terminator_match text i = (if sat text i terminator then Some (Suc i, ()) else None)"

text \<open>The loop of \<open>split_sentences_with_spans\<close> over the terminators: the state is the list
  of sentences so far and the start of the current chunk.\<close>

fun sentence_loop :: "unicode_db \<Rightarrow> str \<Rightarrow> (nat \<times> nat \<times> unit) list \<Rightarrow> (str \<times> nat \<times> nat) list \<Rightarrow> nat
     \<Rightarrow> (str \<times> nat \<times> nat) list \<times> nat" where
  "sentence_loop U text [] sents start = (sents, start)"
| "sentence_loop U text ((ms, me, g) # ms') sents start =
     (let chunk = strip U (slice text start me)
      in sentence_loop U text ms' (if chunk \<noteq> [] then sents @ [(chunk, start, me)] else sents) me)"

definition split_sentences_with_spans :: "unicode_db \<Rightarrow> str \<Rightarrow> (str \<times> nat \<times> nat) list" where
  "split_sentences_with_spans U text =
     (case sentence_loop U text (finditer terminator_match text) [] 0 of
        (sents, start) \<Rightarrow>
          if start < length text
          then (let chunk = strip U (slice text start (length text))
                in if chunk \<noteq> [] then sents @ [(chunk, start, length text)] else sents)
          else sents)"

subsection \<open>Issues\<close>

datatype issue_type = SentenceTooLong | ForbiddenWord | UnapprovedWord | PassiveVoice

record issue =
  itype :: issue_type
  message :: str
  sentence_index :: "nat option"
  span :: "nat \<times> nat"
  suggestion :: str

text \<open>\<open>str.isupper()\<close>, \<open>str.isdigit()\<close> and \<open>isalpha\<close> of one character.\<close>

definition isupper :: "unicode_db \<Rightarrow> str \<Rightarrow> bool" where
  "isupper U s =
     (if list_all is_ascii s then list_ex upper_AZ s \<and> \<not> list_ex lower_az s else u_isupper U s)"

definition isdigit :: "unicode_db \<Rightarrow> str \<Rightarrow> bool" where
  "isdigit U s = (if list_all is_ascii s then s \<noteq> [] \<and> list_all digit s else u_isdigit U s)"

definition isalpha :: "unicode_db \<Rightarrow> cp \<Rightarrow> bool" where
  "isalpha U c = (if is_ascii c then letter c else u_isalpha U c)"

definition is_acronym :: "unicode_db \<Rightarrow> str \<Rightarrow> bool" where
  "is_acronym U token = (isupper U token \<and> 2 \<le> length (filter (isalpha U) token))"

text \<open>Decimal formatting of an integer in an f-string.\<close>

function digits_of :: "nat \<Rightarrow> str" where
  "digits_of n = (if n < 10 then [48 + n] else digits_of (n div 10) @ [48 + n mod 10])"
  by pat_completeness auto
termination
  by (relation "measure id") auto

definition str_of_int :: "int \<Rightarrow> str" where
  "str_of_int k = (if k < 0 then 45 # digits_of (nat (- k)) else digits_of (nat k))"

subsection \<open>The three passes of \<open>lint_text\<close>\<close>

definition sentence_issue :: "int \<Rightarrow> nat \<times> str \<times> nat \<times> nat \<Rightarrow> issue list" where
  "sentence_issue max_sentence_words x =
     (case x of (s_idx, sent, s_start, s_end) \<Rightarrow>
        let words = map fst (tokenize_words_with_spans sent)
        in if max_sentence_words < int (length words)
           then [\<lparr> itype = SentenceTooLong,
                   message = py ''Sentence has '' @ str_of_int (int (length words)) @ py '' words (>''
                               @ str_of_int max_sentence_words @ py '').'',
                   sentence_index = Some s_idx,
                   span = (s_start, s_end),
                   suggestion = py ''Split into shorter sentences (<= 20 words).'' \<rparr>]
           else [])"

definition sentence_issues :: "unicode_db \<Rightarrow> str \<Rightarrow> int \<Rightarrow> issue list" where
  "sentence_issues U text max_sentence_words =
     concat (map (sentence_issue max_sentence_words)
               (List.enumerate 0 (split_sentences_with_spans U text)))"

definition forbidden_issue :: "str \<times> nat \<times> nat \<Rightarrow> issue" where
  "forbidden_issue x =
     (case x of (tok, start, end) \<Rightarrow>
        \<lparr> itype = ForbiddenWord,
          message = py ''Forbidden word: '' @ [39] @ tok @ [39],
          sentence_index = None,
          span = (start, end),
          suggestion = py ''Replace with an approved alternative per ASD-STE100.'' \<rparr>)"

definition unapproved_issue :: "str \<times> nat \<times> nat \<Rightarrow> issue" where
  "unapproved_issue x =
     (case x of (tok, start, end) \<Rightarrow>
        \<lparr> itype = UnapprovedWord,
          message = py ''Not in approved lexicon: '' @ [39] @ tok @ [39],
          sentence_index = None,
          span = (start, end),
          suggestion = py ''Prefer an approved STE word or rephrase.'' \<rparr>)"

text \<open>The tokens the word checks pass over: \<open>low.isdigit() or len(low) < 3 or is_acronym(tok)\<close>.\<close>

definition skipped :: "unicode_db \<Rightarrow> str \<Rightarrow> bool" where
  "skipped U tok = (let low = lower U tok in isdigit U low \<or> length low < 3 \<or> is_acronym U tok)"

definition word_issue :: "unicode_db \<Rightarrow> str set \<Rightarrow> str set \<Rightarrow> str \<times> nat \<times> nat \<Rightarrow> issue list" where
  "word_issue U approved forbidden x =
     (let low = lower U (fst x)
      in if skipped U (fst x) then []
         else if low \<in> forbidden then [forbidden_issue x]
         else if low \<notin> approved then [unapproved_issue x]
         else [])"

definition word_issues :: "unicode_db \<Rightarrow> str set \<Rightarrow> str set \<Rightarrow> str \<Rightarrow> issue list" where
  "word_issues U approved forbidden text =
     concat (map (word_issue U approved forbidden) (tokenize_words_with_spans text))"

text \<open>The pattern \<^verbatim>\<open>\b(am|is|are|was|were|be|been|being)\s+\w+ed\b\<close>, compiled with
  IGNORECASE.\<close>

definition be_verbs :: "str list" where
  "be_verbs = [py ''am'', py ''is'', py ''are'', py ''was'', py ''were'', py ''be'', py ''been'',
               py ''being'']"

definition passive_match :: "unicode_db \<Rightarrow> str \<Rightarrow> nat \<Rightarrow> (nat \<times> unit) option" where
  "passive_match U text i =
     (if boundary U text i
      then first_some
             (\<lambda>v. if match_ci U v text i
                  then greedy (isspace U) 1 text (i + length v) (\<lambda>j.
                         greedy (word_char U) 1 text j (\<lambda>k.
                           if match_ci U (py ''ed'') text k \<and> boundary U text (k + 2)
                           then Some (k + 2, ()) else None))
                  else None)
             be_verbs
      else None)"

definition passive_issue :: "str \<Rightarrow> nat \<times> nat \<times> unit \<Rightarrow> issue" where
  "passive_issue text m =
     (case m of (start, end, g) \<Rightarrow>
        \<lparr> itype = PassiveVoice,
          message = py ''Possible passive: '' @ [39] @ slice text start end @ [39],
          sentence_index = None,
          span = (start, end),
          suggestion = py ''Use active voice where possible.'' \<rparr>)"

definition passive_issues :: "unicode_db \<Rightarrow> str \<Rightarrow> issue list" where
  "passive_issues U text = map (passive_issue text) (finditer (passive_match U) text)"

subsection \<open>\<open>lint_text\<close>\<close>

text \<open>The effective approved set: the approved word list, which must exist, and the
  ALL-CAPS list when it exists, both in lower case.\<close>

definition effective_approved :: "unicode_db \<Rightarrow> filesystem \<Rightarrow> path \<Rightarrow> path \<Rightarrow> py_error + str set" where
  "effective_approved U fs approved_path allcaps_path =
     then_do (load_wordlist U fs approved_path) (\<lambda>approved.
       if path_exists fs allcaps_path
       then then_do (load_wordlist U fs allcaps_path) (\<lambda>allcaps.
              Inr (lower U ` approved \<union> lower U ` allcaps))
       else Inr (lower U ` approved))"

definition effective_forbidden :: "unicode_db \<Rightarrow> filesystem \<Rightarrow> path \<Rightarrow> py_error + str set" where
  "effective_forbidden U fs forbidden_path =
     (if path_exists fs forbidden_path
      then then_do (load_wordlist U fs forbidden_path) (\<lambda>forbidden. Inr (lower U ` forbidden))
      else Inr {})"

definition lint_text :: "unicode_db \<Rightarrow> filesystem \<Rightarrow> str \<Rightarrow> path \<Rightarrow> path \<Rightarrow> path \<Rightarrow> int \<Rightarrow> py_error + issue list" where
  "lint_text U fs text approved_path forbidden_path allcaps_path max_sentence_words =
     then_do (effective_approved U fs approved_path allcaps_path) (\<lambda>approved.
     then_do (effective_forbidden U fs forbidden_path) (\<lambda>forbidden.
       Inr (sentence_issues U text max_sentence_words
            @ word_issues U approved forbidden text
            @ passive_issues U text)))"

section \<open>Building the lexicons\<close>

text \<open>
  \<open>extract_text_from_pdf\<close> reads the document through one of three PDF libraries, none of
  them code of this repository. It is the parameter \<open>extract\<close>: the text of the document
  at a path, or the RuntimeError raised when no library can read it.
\<close>

type_synonym extractor = "path \<Rightarrow> py_error + str"

text \<open>Sequential loop over a list with a state, ended by the first exception.\<close>

fun for_each :: "('s \<Rightarrow> 'a \<Rightarrow> py_error + 's) \<Rightarrow> 'a list \<Rightarrow> 's \<Rightarrow> py_error + 's" where
  "for_each f [] s = Inr s"
| "for_each f (x # xs) s = then_do (f s x) (for_each f xs)"

text \<open>\<open>HEADER_SPLIT_RE\<close>, the pattern \<^verbatim>\<open>Word\s+Approved meaning/?\s+STE\<close> compiled with
  IGNORECASE: the optional slash is tried first present, then absent.\<close>

definition header_match :: "unicode_db \<Rightarrow> str \<Rightarrow> nat \<Rightarrow> (nat \<times> unit) option" where
  "header_match U text i =
     (if match_ci U (py ''word'') text i
      then greedy (isspace U) 1 text (i + 4) (\<lambda>j.
             if match_ci U (py ''approved'') text j \<and> match_lit (py '' '') text (j + 8)
                \<and> match_ci U (py ''meaning'') text (j + 9)
             then first_some
                    (\<lambda>k. greedy (isspace U) 1 text k (\<lambda>l.
                           if match_ci U (py ''ste'') text l then Some (l + 3, ()) else None))
                    (if match_lit (py ''/'') text (j + 16) then [j + 17, j + 16] else [j + 16])
             else None)
      else None)"

text \<open>\<open>re.split\<close> for a pattern without groups: the pieces of the text between the matches.\<close>

fun split_parts :: "str \<Rightarrow> nat \<Rightarrow> (nat \<times> nat \<times> 'g) list \<Rightarrow> str list" where
  "split_parts text start [] = [drop start text]"
| "split_parts text start ((s, e, g) # ms) = slice text start s # split_parts text e ms"

definition header_split :: "unicode_db \<Rightarrow> str \<Rightarrow> str list" where
  "header_split U text = split_parts text 0 (finditer (header_match U) text)"

text \<open>\<open>HEADWORD_RE\<close>, the pattern
  \<^verbatim>\<open>\n([A-Za-z][A-Za-z0-9\-/ ]{1,})\s*\(([a-zA-Z\. ]+)\)\s\<close>. The groups of a match are
  returned as their spans.\<close>

definition hw_char :: "cp \<Rightarrow> bool" where
  "hw_char c = (letter c \<or> digit c \<or> c = 45 \<or> c = 47 \<or> c = 32)"

definition pos_char :: "cp \<Rightarrow> bool" where
  "pos_char c = (letter c \<or> c = 46 \<or> c = 32)"

definition headword_match :: "unicode_db \<Rightarrow> str \<Rightarrow> nat \<Rightarrow> (nat \<times> (nat \<times> nat) \<times> (nat \<times> nat)) option" where
  "headword_match U text i =
     (if match_lit [10] text i \<and> sat text (i + 1) letter
      then greedy hw_char 1 text (i + 2) (\<lambda>g1.
             greedy (isspace U) 0 text g1 (\<lambda>j.
               if match_lit (py ''('') text j
               then greedy pos_char 1 text (j + 1) (\<lambda>g2.
                      if match_lit (py '')'') text g2 \<and> sat text (g2 + 1) (isspace U)
                      then Some (g2 + 2, (i + 1, g1), (j + 1, g2)) else None)
               else None))
      else None)"

text \<open>The body of the inner loop of \<open>build_lexicons_from_pdf\<close>: one match of
  \<open>HEADWORD_RE\<close> in a section, and the two sets built so far.\<close>

definition classify_headword :: "unicode_db \<Rightarrow> str \<Rightarrow> str set \<times> str set \<Rightarrow> nat \<times> nat \<times> (nat \<times> nat) \<times> (nat \<times> nat)
     \<Rightarrow> py_error + str set \<times> str set" where
  "classify_headword U sec acc m =
     (case acc of (approved_words, forbidden_words) \<Rightarrow>
      case m of (ms, me, (g1s, g1e), (g2s, g2e)) \<Rightarrow>
        let hw = strip U (slice sec g1s g1e);
            pos = lower U (strip U (slice sec g2s g2e))
        in if \<not> list_ex letter hw then Inr (approved_words, forbidden_words)
           else if upper U hw = hw \<and> lower U hw \<noteq> hw
           then (if str_in (py ''v'') pos
                 then then_do (verb_inflections U hw) (\<lambda>forms.
                        Inr (approved_words \<union> forms, forbidden_words))
                 else if str_in (py ''n'') pos
                 then then_do (plural_forms U hw) (\<lambda>forms.
                        Inr (approved_words \<union> forms, forbidden_words))
                 else Inr (insert hw approved_words, forbidden_words))
           else if lower U hw = hw \<and> upper U hw \<noteq> hw
           then Inr (approved_words, insert hw forbidden_words)
           else Inr (approved_words, forbidden_words))"

definition build_section :: "unicode_db \<Rightarrow> str set \<times> str set \<Rightarrow> str \<Rightarrow> py_error + str set \<times> str set" where
  "build_section U acc sec = for_each (classify_headword U sec) (finditer (headword_match U) sec) acc"

definition build_lexicons_from_pdf :: "unicode_db \<Rightarrow> extractor \<Rightarrow> path \<Rightarrow> py_error + str set \<times> str set" where
  "build_lexicons_from_pdf U extract pdf_path =
     then_do (extract pdf_path) (\<lambda>full.
       for_each (build_section U) (tl (header_split U full)) ({}, {}))"

text \<open>\<open>extract_all_caps_words\<close>: the pattern \<^verbatim>\<open>\b[A-Z][A-Z0-9\-]{2,}\b\<close> over the whole
  text, without the matches that are digits only or one of the table labels.\<close>

definition caps_char :: "cp \<Rightarrow> bool" where
  "caps_char c = (upper_AZ c \<or> digit c \<or> c = 45)"

definition allcaps_match :: "unicode_db \<Rightarrow> str \<Rightarrow> nat \<Rightarrow> (nat \<times> unit) option" where
  "allcaps_match U text i =
     (if boundary U text i \<and> sat text i upper_AZ
      then greedy caps_char 2 text (i + 1) (\<lambda>j. if boundary U text j then Some (j, ()) else None)
      else None)"

definition table_labels :: "str list" where
  "table_labels =
     [py ''WORD'', py ''APPROVED'', py ''MEANING'', py ''ALTERNATIVES'', py ''STE'', py ''EXAMPLE'',
      py ''NON'', py ''PART'', py ''SPEECH'', py ''PAGE'', py ''ISSUE'', py ''DICTIONARY'',
      py ''TABLE'', py ''FIGURE'', py ''APPENDIX'', py ''SECTION'', py ''NOTE'']"

definition extract_all_caps_words :: "unicode_db \<Rightarrow> extractor \<Rightarrow> path \<Rightarrow> py_error + str set" where
  "extract_all_caps_words U extract pdf_path =
     then_do (extract pdf_path) (\<lambda>text.
       Inr (set (filter (\<lambda>m. \<not> isdigit U m \<and> \<not> List.member table_labels m)
                   (map (\<lambda>(s, e, g). slice text s e) (finditer (allcaps_match U) text)))))"

text \<open>Writing a word list: the words in ascending order of their code points, each
  followed by a newline. The set is iterated through \<open>sorted\<close>, so the order in which a
  Python set happens to enumerate its elements plays no part. The content is the text
  handed to the text layer, which turns each newline into the platform's line separator.\<close>

definition write_wordlist :: "str set \<Rightarrow> str" where
  "write_wordlist ws = concat (map (\<lambda>w. w @ [10]) (sorted_list_of_set ws))"

definition ensure_wordlists :: "unicode_db \<Rightarrow> extractor \<Rightarrow> filesystem \<Rightarrow> path \<Rightarrow> path \<Rightarrow> path \<Rightarrow> path
     \<Rightarrow> py_error + filesystem" where
  "ensure_wordlists U extract fs approved_path forbidden_path allcaps_path pdf_path =
     (let need_build = \<not> (path_exists fs approved_path \<and> path_exists fs forbidden_path
                            \<and> path_exists fs allcaps_path)
      in if \<not> need_build then Inr fs
         else if \<not> path_exists fs pdf_path then Inl FileNotFoundError
         else then_do (build_lexicons_from_pdf U extract pdf_path) (\<lambda>(approved, forbidden).
              then_do (extract_all_caps_words U extract pdf_path) (\<lambda>allcaps.
                Inr (fs(approved_path \<mapsto> write_wordlist approved,
                        forbidden_path \<mapsto> write_wordlist forbidden,
                        allcaps_path \<mapsto> write_wordlist allcaps)))))"

section \<open>A concrete table\<close>

text \<open>A table for concrete evaluation: nothing beyond ASCII is white space or a word
  character and the case mappings leave such strings alone. The inputs it is used on are
  ASCII, where the tables are never consulted.\<close>

definition ascii_db :: unicode_db where
  "ascii_db = \<lparr> u_isspace = (\<lambda>c. False), u_isword = (\<lambda>c. False),
                u_ci_match = (\<lambda>p c. False), u_lower = (\<lambda>s. s), u_upper = (\<lambda>s. s),
                u_isupper = (\<lambda>s. False), u_isdigit = (\<lambda>s. False), u_isalpha = (\<lambda>c. False) \<rparr>"

section \<open>Vocabulary of the properties\<close>

text \<open>One match lies wholly before another.\<close>

definition before :: "nat \<times> nat \<times> 'g \<Rightarrow> nat \<times> nat \<times> 'g \<Rightarrow> bool" where
  "before a b = (fst a < fst b \<and> fst (snd a) \<le> fst b)"

text \<open>A matcher is sound on a inp when each match it reports from a position inside the
  inp consumes at least one character and ends inside the inp.\<close>

definition progresses :: "(str \<Rightarrow> nat \<Rightarrow> (nat \<times> 'g) option) \<Rightarrow> str \<Rightarrow> bool" where
  "progresses m inp = (\<forall>i e g. i \<le> length inp \<longrightarrow> m inp i = Some (e, g) \<longrightarrow> i < e \<and> e \<le> length inp)"

text \<open>One issue lies wholly before another in the text.\<close>

definition precedes :: "issue \<Rightarrow> issue \<Rightarrow> bool" where
  "precedes a b = (fst (span a) < fst (span b) \<and> snd (span a) \<le> fst (span b))"

text \<open>A non-empty span inside a text of length \<open>n\<close>.\<close>

definition span_ok :: "nat \<Rightarrow> nat \<times> nat \<Rightarrow> bool" where
  "span_ok n sp = (fst sp < snd sp \<and> snd sp \<le> n)"

text \<open>The state of the sentence loop: the sentences found so far lie in order before the
  start of the current chunk, and each is the stripped text of its span.\<close>

definition sent_inv :: "unicode_db \<Rightarrow> str \<Rightarrow> nat \<Rightarrow> (str \<times> nat \<times> nat) list \<Rightarrow> bool" where
  "sent_inv U inp start sents =
     (start \<le> length inp
      \<and> sorted_wrt (\<lambda>a b. snd (snd a) \<le> fst (snd b)) sents
      \<and> list_all (\<lambda>x. span_ok start (snd x) \<and> fst x = strip U (slice inp (fst (snd x)) (snd (snd x)))) sents)"

text \<open>Two sentence issues carry sentence indices in ascending order.\<close>

definition index_before :: "issue \<Rightarrow> issue \<Rightarrow> bool" where
  "index_before a b =
     (case (sentence_index a, sentence_index b) of (Some k, Some k') \<Rightarrow> k < k' | _ \<Rightarrow> False)"

text \<open>A small file system for concrete runs: the approved list holds \<open>THE\<close> and \<open>VALVE\<close>,
  the forbidden list \<open>abandon\<close>, and there is no ALL-CAPS list.\<close>

definition demo_fs :: filesystem where
  "demo_fs = (\<lambda>p. if p = py ''approved.txt'' then Some (py ''THE\<newline>VALVE\<newline>'')
                   else if p = py ''forbidden.txt'' then Some (py ''abandon\<newline>'')
                   else None)"

definition demo_text :: str where
  "demo_text = py ''The valve was opened.''"

definition demo_issues :: "issue list" where
  "demo_issues =
     [\<lparr> itype = SentenceTooLong, message = py ''Sentence has 4 words (>3).'',
        sentence_index = Some 0, span = (0, 21),
        suggestion = py ''Split into shorter sentences (<= 20 words).'' \<rparr>,
      \<lparr> itype = UnapprovedWord, message = py ''Not in approved lexicon: '' @ [39] @ py ''was'' @ [39],
        sentence_index = None, span = (10, 13),
        suggestion = py ''Prefer an approved STE word or rephrase.'' \<rparr>,
      \<lparr> itype = UnapprovedWord, message = py ''Not in approved lexicon: '' @ [39] @ py ''opened'' @ [39],
        sentence_index = None, span = (14, 20),
        suggestion = py ''Prefer an approved STE word or rephrase.'' \<rparr>,
      \<lparr> itype = PassiveVoice, message = py ''Possible passive: '' @ [39] @ py ''was opened'' @ [39],
        sentence_index = None, span = (10, 20),
        suggestion = py ''Use active voice where possible.'' \<rparr>]"

text \<open>The word-level issues of an issue list that carry a given span.\<close>

definition word_issues_at :: "issue list \<Rightarrow> nat \<times> nat \<Rightarrow> issue list" where
  "word_issues_at issues sp =
     filter (\<lambda>a. (itype a = ForbiddenWord \<or> itype a = UnapprovedWord) \<and> span a = sp) issues"

text \<open>The SentenceTooLong issues of an issue list for the sentence with a given index.\<close>

definition length_issues_of :: "issue list \<Rightarrow> nat \<Rightarrow> issue list" where
  "length_issues_of issues k =
     filter (\<lambda>a. itype a = SentenceTooLong \<and> sentence_index a = Some k) issues"

text \<open>A run with a skipped acronym, an unapproved word and a forbidden word.\<close>

definition words_text :: str where
  "words_text = py ''NASA will abandon the valve''"

definition words_issues :: "issue list" where
  "words_issues =
     [unapproved_issue (py ''will'', 5, 9), forbidden_issue (py ''abandon'', 10, 17)]"

text \<open>The SentenceTooLong issue for sentence \<open>k\<close> with span \<open>sp\<close>, 21 words and the
  default limit of 20.\<close>

definition too_long_21 :: "nat \<Rightarrow> nat \<times> nat \<Rightarrow> issue" where
  "too_long_21 k sp =
     \<lparr> itype = SentenceTooLong,
       message = py ''Sentence has 21 words (>20).'',
       sentence_index = Some k,
       span = sp,
       suggestion = py ''Split into shorter sentences (<= 20 words).'' \<rparr>"

text \<open>A text of two sentences, the first of 21 words and the second of 20.\<close>

definition boundary_text :: str where
  "boundary_text = py ''a b c d e f g h i j k l m n o p q r s t u. a b c d e f g h i j k l m n o p q r s t.''"

text \<open>The sample sentence of the module docstring, and a file system whose approved list
  holds exactly the words operator, start, starts, system, do, does, procedure, minute and
  minutes, with an empty forbidden list and no ALL-CAPS list.\<close>

definition sample_text :: str where
  "sample_text = py ''The operator starts the system and does the procedure in 25 minutes.''"

definition sample_words :: "str list" where
  "sample_words = [py ''operator'', py ''start'', py ''starts'', py ''system'', py ''do'', py ''does'',
                   py ''procedure'', py ''minute'', py ''minutes'']"

definition sample_fs :: filesystem where
  "sample_fs = (\<lambda>p. if p = py ''approved.txt''
                     then Some (py ''operator\<newline>start\<newline>starts\<newline>system\<newline>do\<newline>does\<newline>procedure\<newline>minute\<newline>minutes\<newline>'')
                   else if p = py ''forbidden.txt'' then Some []
                   else None)"

definition sample_issues :: "issue list" where
  "sample_issues =
     [unapproved_issue (py ''The'', 0, 3), unapproved_issue (py ''the'', 20, 23),
      unapproved_issue (py ''and'', 31, 34), unapproved_issue (py ''the'', 40, 43)]"

text \<open>The same with \<open>the\<close> and \<open>and\<close> added to the approved list.\<close>

definition sample_fs_full :: filesystem where
  "sample_fs_full = (\<lambda>p. if p = py ''approved.txt''
                     then Some (py ''operator\<newline>start\<newline>starts\<newline>system\<newline>do\<newline>does\<newline>procedure\<newline>minute\<newline>minutes\<newline>the\<newline>and\<newline>'')
                   else if p = py ''forbidden.txt'' then Some []
                   else None)"

text \<open>A document without a table header but with a table row, and one with a header and
  three rows: an approved verb, a forbidden word and a mixed-case entry.\<close>

definition headless_doc :: str where
  "headless_doc = py ''Dictionary\<newline>ABORT (v) To stop\<newline>''"

definition small_doc :: str where
  "small_doc = py ''Word Approved meaning/ STE\<newline>ABORT (v) To stop\<newline>abandon (v) \<newline>Mixed Case (n) ''"

text \<open>Document sources that deliver these texts for every path.\<close>

definition headless_extract :: extractor where
  "headless_extract p = Inr headless_doc"

definition small_extract :: extractor where
  "small_extract p = Inr small_doc"


text \<open>The shape of every word the build writes: characters a headword may hold, at least one
  of them a letter.\<close>

definition wordlike :: "str \<Rightarrow> bool" where
  "wordlike w = (list_all hw_char w \<and> list_ex letter w)"

definition all_wordlike :: "str set \<times> str set \<Rightarrow> bool" where
  "all_wordlike acc = (finite (fst acc) \<and> finite (snd acc) \<and> (\<forall>w \<in> fst acc \<union> snd acc. wordlike w))"

text \<open>The text of a word-list file with the given lines.\<close>

definition file_of_lines :: "str list \<Rightarrow> str" where
  "file_of_lines ws = concat (map (\<lambda>w. w @ [10]) ws)"

text \<open>A document source and a file system for a build: the document exists, the word lists
  do not; and a second file system where one of the lists is left over from before.\<close>

definition build_fs :: filesystem where
  "build_fs = (\<lambda>p. if p = py ''ste.pdf'' then Some [] else None)"

definition stale_fs :: filesystem where
  "stale_fs = (\<lambda>p. if p = py ''ste.pdf'' then Some []
                   else if p = py ''forbidden.txt'' then Some (py ''stale\<newline>'')
                   else None)"




declare finditer_from.simps [simp del]
declare lines_of.simps [simp del]
declare digits_of.simps [simp del]

section \<open>The matchers and \<open>finditer\<close>\<close>

subsection \<open>The matcher combinators\<close>

lemma first_some_Some:
  "first_some k xs = Some r \<Longrightarrow> \<exists>x \<in> set xs. k x = Some r"
  by (induction xs) (auto split: option.splits)

lemma first_some_None:
  "first_some k xs = None \<longleftrightarrow> (\<forall>x \<in> set xs. k x = None)"
  by (induction xs) (auto split: option.splits)

lemma takeWhile_drop_bound:
  "i \<le> length inp \<Longrightarrow> i + length (takeWhile cls (drop i inp)) \<le> length inp"
proof -
  assume "i \<le> length inp"
  moreover have "length (takeWhile cls (drop i inp)) \<le> length (drop i inp)"
    by (rule length_takeWhile_le)
  ultimately show ?thesis by simp
qed

lemma greedy_Some:
  assumes "greedy cls lo inp i k = Some r"
  shows "\<exists>j. i + lo \<le> j \<and> j \<le> i + length (takeWhile cls (drop i inp)) \<and> k j = Some r"
proof -
  from assms obtain j where "j \<in> set (rev [i + lo ..< Suc (i + length (takeWhile cls (drop i inp)))])"
    and kj: "k j = Some r"
    unfolding greedy_def using first_some_Some by fastforce
  then have "i + lo \<le> j" and "j \<le> i + length (takeWhile cls (drop i inp))" by auto
  with kj show ?thesis by blast
qed

lemma greedy_bounds:
  assumes "greedy cls lo inp i k = Some r" and "i \<le> length inp"
  shows "\<exists>j. i + lo \<le> j \<and> j \<le> length inp \<and> k j = Some r"
proof -
  from greedy_Some [OF assms(1)] obtain j where
    j: "i + lo \<le> j" "j \<le> i + length (takeWhile cls (drop i inp))" "k j = Some r" by blast
  with takeWhile_drop_bound [OF assms(2), of cls] have "j \<le> length inp" by simp
  with j show ?thesis by blast
qed

text \<open>Every character the repetition passed over is in the class.\<close>

lemma greedy_class:
  assumes "greedy cls lo inp i k = Some r"
  shows "\<exists>j. i + lo \<le> j \<and> k j = Some r \<and> list_all cls (slice inp i j)"
proof -
  from greedy_Some [OF assms] obtain j where
    j: "i + lo \<le> j" "j \<le> i + length (takeWhile cls (drop i inp))" "k j = Some r" by blast
  have "slice inp i j = take (j - i) (takeWhile cls (drop i inp))"
  proof -
    have "take (j - i) (takeWhile cls (drop i inp)) = take (j - i) (take (length (takeWhile cls (drop i inp))) (drop i inp))"
      by (metis takeWhile_eq_take)
    also have "\<dots> = take (j - i) (drop i inp)"
      using j(2) by (simp add: min_def)
    finally show ?thesis by (simp add: slice_def)
  qed
  moreover have "list_all cls (takeWhile cls (drop i inp))"
    by (simp add: list_all_iff) (meson set_takeWhileD)
  ultimately have "list_all cls (slice inp i j)"
    by (metis list_all_iff in_set_takeD)
  with j show ?thesis by blast
qed

subsection \<open>\<open>finditer\<close>\<close>

lemma finditer_from_members:
  "x \<in> set (finditer_from m inp i) \<Longrightarrow>
     i \<le> fst x \<and> fst x \<le> length inp \<and> m inp (fst x) = Some (snd x)"
proof (induction m inp i rule: finditer_from.induct)
  case (1 m inp i)
  show ?case
  proof (cases "length inp < i")
    case True
    with "1.prems" show ?thesis by (simp add: finditer_from.simps [of m inp i])
  next
    case False
    show ?thesis
    proof (cases "m inp i")
      case None
      with False "1.prems" have "x \<in> set (finditer_from m inp (Suc i))"
        by (simp add: finditer_from.simps [of m inp i])
      with "1.IH"(1) [OF False None] show ?thesis by simp
    next
      case (Some eg)
      obtain e g where eg: "eg = (e, g)" by (cases eg)
      from False Some eg "1.prems" have
        "x = (i, e, g) \<or> x \<in> set (finditer_from m inp (if i < e then e else Suc i))"
        by (simp add: finditer_from.simps [of m inp i])
      then show ?thesis
      proof
        assume "x = (i, e, g)"
        with False Some eg show ?thesis by simp
      next
        assume "x \<in> set (finditer_from m inp (if i < e then e else Suc i))"
        with "1.IH"(2) [OF False Some eg [symmetric]] show ?thesis
          by (auto split: if_splits)
      qed
    qed
  qed
qed

lemma finditer_from_sorted:
  "sorted_wrt before (finditer_from m inp i)"
proof (induction m inp i rule: finditer_from.induct)
  case (1 m inp i)
  show ?case
  proof (cases "length inp < i")
    case True
    then show ?thesis by (simp add: finditer_from.simps [of m inp i])
  next
    case False
    show ?thesis
    proof (cases "m inp i")
      case None
      with False "1.IH"(1) show ?thesis by (simp add: finditer_from.simps [of m inp i])
    next
      case (Some eg)
      obtain e g where eg: "eg = (e, g)" by (cases eg)
      let ?n = "if i < e then e else Suc i"
      have rest: "sorted_wrt before (finditer_from m inp ?n)"
        using "1.IH"(2) [OF False Some eg [symmetric]] .
      have "before (i, e, g) y" if "y \<in> set (finditer_from m inp ?n)" for y
        using finditer_from_members [OF that] by (auto simp: before_def split: if_splits)
      with rest False Some eg show ?thesis
        by (simp add: finditer_from.simps [of m inp i])
    qed
  qed
qed

lemma finditer_empty:
  "(\<And>i. m inp i = None) \<Longrightarrow> finditer_from m inp i = []"
proof (induction m inp i rule: finditer_from.induct)
  case (1 m inp i)
  then show ?case by (simp add: finditer_from.simps [of m inp i])
qed

lemma finditer_spans:
  assumes "progresses m inp" and "(s, e, g) \<in> set (finditer m inp)"
  shows "s < e \<and> e \<le> length inp"
proof -
  from assms(2) have "s \<le> length inp \<and> m inp s = Some (e, g)"
    using finditer_from_members [of "(s, e, g)" m inp 0] by (simp add: finditer_def)
  with assms(1) show ?thesis unfolding progresses_def by blast
qed

lemma token_match_progress: "progresses token_match inp"
  unfolding progresses_def
proof (intro allI impI)
  fix i e and g :: unit
  assume i: "i \<le> length inp" and m: "token_match inp i = Some (e, g)"
  from m have l: "sat inp i letter"
    and gr: "greedy tok_char 0 inp (Suc i) (\<lambda>j. Some (j, ())) = Some (e, g)"
    by (auto simp: token_match_def split: if_splits)
  from l have "Suc i \<le> length inp" by (simp add: sat_def)
  from greedy_bounds [OF gr this] show "i < e \<and> e \<le> length inp" by auto
qed

lemma terminator_match_progress: "progresses terminator_match inp"
  by (auto simp: progresses_def terminator_match_def sat_def split: if_splits)

lemma passive_match_progress: "progresses (passive_match U) inp"
  unfolding progresses_def
proof (intro allI impI)
  fix i e and g :: unit
  assume i: "i \<le> length inp" and m: "passive_match U inp i = Some (e, g)"
  from m obtain v where v: "v \<in> set be_verbs" "match_ci U v inp i"
    and g1: "greedy (isspace U) 1 inp (i + length v) (\<lambda>j.
               greedy (word_char U) 1 inp j (\<lambda>k.
                 if match_ci U (py ''ed'') inp k \<and> boundary U inp (k + 2)
                 then Some (k + 2, ()) else None)) = Some (e, g)"
    by (auto simp: passive_match_def split: if_splits dest!: first_some_Some)
  from greedy_Some [OF g1] obtain j where j: "i + length v + 1 \<le> j"
    and g2: "greedy (word_char U) 1 inp j (\<lambda>k.
                 if match_ci U (py ''ed'') inp k \<and> boundary U inp (k + 2)
                 then Some (k + 2, ()) else None) = Some (e, g)" by blast
  from greedy_Some [OF g2] obtain k where k: "j + 1 \<le> k"
    and ed: "match_ci U (py ''ed'') inp k" and e: "e = k + 2"
    by (auto split: if_splits)
  from ed have "length (slice inp k (k + 2)) = 2"
    by (auto simp: match_ci_def py_def dest: list_all2_lengthD)
  then have "k + 2 \<le> length inp" by (simp add: slice_def)
  with j k e show "i < e \<and> e \<le> length inp" by simp
qed

section \<open>Properties of the morphology helpers\<close>

lemma neg_index_ok: "0 < k \<Longrightarrow> k \<le> length s \<Longrightarrow> \<exists>c. neg_index s k = Inr c"
  by (simp add: neg_index_def)

lemma consonant_y_total:
  "\<exists>cy. consonant_y U b low = Inr cy \<and> (cy \<longrightarrow> 1 < length b)"
  by (auto simp: consonant_y_def neg_index_def then_do_def)

lemma double_final_total: "\<exists>d. double_final_consonant_for_ing_ed U w = Inr d"
  by (auto simp: double_final_consonant_for_ing_ed_def neg_index_def then_do_def Let_def)

lemma third_singular_longer:
  "\<exists>t. third_singular U b low = Inr t \<and> length b < length t"
proof -
  obtain cy where cy: "consonant_y U b low = Inr cy" "cy \<longrightarrow> 1 < length b"
    using consonant_y_total by blast
  then show ?thesis
    by (auto simp: third_singular_def then_do_def py_def)
qed

lemma past_form_total: "b \<noteq> [] \<Longrightarrow> \<exists>p. past_form U b low = Inr p"
proof -
  assume "b \<noteq> []"
  then have "Suc 0 \<le> length b" by (cases b) simp_all
  moreover obtain d where "double_final_consonant_for_ing_ed U low = Inr d"
    using double_final_total by blast
  ultimately show ?thesis
    by (auto simp: past_form_def then_do_def neg_index_def)
qed

lemma ing_form_total: "b \<noteq> [] \<Longrightarrow> \<exists>g. ing_form U b low = Inr g"
proof -
  assume "b \<noteq> []"
  then have "Suc 0 \<le> length b" by (cases b) simp_all
  moreover obtain d where "double_final_consonant_for_ing_ed U low = Inr d"
    using double_final_total by blast
  ultimately show ?thesis
    by (auto simp: ing_form_def then_do_def neg_index_def)
qed

lemma verb_inflections_shape:
  assumes "b \<noteq> []"
  shows "\<exists>t p g. verb_inflections U b = Inr {b, t, p, g} \<and> length b < length t"
proof -
  obtain t where t: "third_singular U b (lower U b) = Inr t" "length b < length t"
    using third_singular_longer by blast
  obtain p where p: "past_form U b (lower U b) = Inr p"
    using past_form_total [OF assms] by blast
  obtain g where g: "ing_form U b (lower U b) = Inr g"
    using ing_form_total [OF assms] by blast
  have "verb_inflections U b = Inr {b, t, p, g}"
    using t p g by (simp add: verb_inflections_def then_do_def Let_def)
  with t(2) show ?thesis by blast
qed

lemma plural_forms_shape:
  "\<exists>t. plural_forms U b = Inr {b, t} \<and> length b < length t"
proof -
  obtain cy where cy: "consonant_y U b (lower U b) = Inr cy" "cy \<longrightarrow> 1 < length b"
    using consonant_y_total by blast
  then show ?thesis
    by (auto simp: plural_forms_def then_do_def py_def Let_def)
qed

lemmas morph_eval = verb_inflections_def third_singular_def past_form_def ing_form_def
  consonant_y_def double_final_consonant_for_ing_ed_def plural_forms_def
  then_do_def neg_index_def is_vowel_def startswith_def
  py_def lower_def is_ascii_def ascii_lower_def upper_AZ_def ends_with_any_def endswith_def

text \<open>
  Claim C5. For every non-empty base word, \<open>_verb_inflections\<close> and \<open>_plural_forms\<close>
  return without raising, and the set each returns contains the base and at least one
  form different from it; \<open>_verb_inflections("STOP")\<close> contains STOP, STOPS, STOPPED and
  STOPPING, and \<open>_plural_forms("BOX")\<close> contains BOX and BOXES. The base need not be
  uppercase for this.
\<close>

theorem morphology_total_base_and_other:
  assumes "b \<noteq> []"
  shows "(\<exists>out. verb_inflections U b = Inr out \<and> b \<in> out \<and> (\<exists>f \<in> out. f \<noteq> b))
       \<and> (\<exists>out. plural_forms U b = Inr out \<and> b \<in> out \<and> (\<exists>f \<in> out. f \<noteq> b))
       \<and> (\<exists>out. verb_inflections U (py ''STOP'') = Inr out
              \<and> {py ''STOP'', py ''STOPS'', py ''STOPPED'', py ''STOPPING''} \<subseteq> out)
       \<and> (\<exists>out. plural_forms U (py ''BOX'') = Inr out \<and> {py ''BOX'', py ''BOXES''} \<subseteq> out)"
proof (intro conjI)
  obtain t p g where v: "verb_inflections U b = Inr {b, t, p, g}" "length b < length t"
    using verb_inflections_shape [OF assms] by blast
  then have "t \<noteq> b" by auto
  with v show "\<exists>out. verb_inflections U b = Inr out \<and> b \<in> out \<and> (\<exists>f \<in> out. f \<noteq> b)"
    by auto
next
  obtain t where n: "plural_forms U b = Inr {b, t}" "length b < length t"
    using plural_forms_shape by blast
  then have "t \<noteq> b" by auto
  with n show "\<exists>out. plural_forms U b = Inr out \<and> b \<in> out \<and> (\<exists>f \<in> out. f \<noteq> b)"
    by auto
next
  show "\<exists>out. verb_inflections U (py ''STOP'') = Inr out
              \<and> {py ''STOP'', py ''STOPS'', py ''STOPPED'', py ''STOPPING''} \<subseteq> out"
    by (simp add: morph_eval)
next
  show "\<exists>out. plural_forms U (py ''BOX'') = Inr out \<and> {py ''BOX'', py ''BOXES''} \<subseteq> out"
    by (simp add: morph_eval)
qed

theorem morphology_total_base_and_other_witness:
  "py ''TRY'' \<noteq> []
   \<and> verb_inflections ascii_db (py ''TRY'') = Inr {py ''TRY'', py ''TRIES'', py ''TRYED'', py ''TRYING''}
   \<and> (\<exists>out. verb_inflections ascii_db (py ''TRY'') = Inr out \<and> py ''TRY'' \<in> out \<and> (\<exists>f \<in> out. f \<noteq> py ''TRY''))
   \<and> (\<exists>out. plural_forms ascii_db (py ''TRY'') = Inr out \<and> py ''TRY'' \<in> out \<and> (\<exists>f \<in> out. f \<noteq> py ''TRY''))"
proof -
  have ne: "py ''TRY'' \<noteq> []" by (simp add: py_def)
  have ev: "verb_inflections ascii_db (py ''TRY'') = Inr {py ''TRY'', py ''TRIES'', py ''TRYED'', py ''TRYING''}"
    by (simp add: morph_eval) 
  show ?thesis using ne ev morphology_total_base_and_other [OF ne, of ascii_db] by blast
qed

subsection \<open>Lists\<close>

lemma sorted_wrt_concat_map:
  assumes "sorted_wrt R xs"
    and "\<And>x. x \<in> set xs \<Longrightarrow> sorted_wrt Q (f x)"
    and "\<And>x y a b. R x y \<Longrightarrow> a \<in> set (f x) \<Longrightarrow> b \<in> set (f y) \<Longrightarrow> Q a b"
  shows "sorted_wrt Q (concat (map f xs))"
  using assms(1,2)
proof (induction xs)
  case Nil
  then show ?case by simp
next
  case (Cons x xs)
  then have "sorted_wrt Q (concat (map f xs))" by simp
  moreover have "sorted_wrt Q (f x)" using Cons.prems(2) by simp
  moreover have "Q a b" if "a \<in> set (f x)" "b \<in> set (concat (map f xs))" for a b
  proof -
    from that(2) obtain y where "y \<in> set xs" "b \<in> set (f y)" by auto
    moreover from this Cons.prems(1) have "R x y" by simp
    ultimately show ?thesis using assms(3) that(1) by blast
  qed
  ultimately show ?case by (simp add: sorted_wrt_append)
qed

subsection \<open>Tokens\<close>

lemma tokens_members:
  assumes "(tok, s, e) \<in> set (tokenize_words_with_spans inp)"
  shows "s < e \<and> e \<le> length inp \<and> tok = slice inp s e"
proof -
  from assms obtain g where "(s, e, g) \<in> set (finditer token_match inp)"
    by (auto simp: tokenize_words_with_spans_def)
  from finditer_spans [OF token_match_progress this] assms show ?thesis
    by (auto simp: tokenize_words_with_spans_def)
qed

lemma tokens_sorted:
  "sorted_wrt (\<lambda>a b. fst (snd a) < fst (snd b) \<and> snd (snd a) \<le> fst (snd b))
     (tokenize_words_with_spans inp)"
proof -
  have "sorted_wrt before (finditer token_match inp)"
    by (simp add: finditer_def finditer_from_sorted)
  then show ?thesis
    unfolding tokenize_words_with_spans_def sorted_wrt_map
    by (rule sorted_wrt_mono_rel [rotated]) (auto simp: before_def)
qed

subsection \<open>Sentences\<close>

lemma sentence_loop_inv:
  assumes "sentence_loop U inp ms sents start = (sents', start')"
    and "sorted_wrt before ms"
    and "\<forall>m \<in> set ms. start \<le> fst m \<and> fst m < fst (snd m) \<and> fst (snd m) \<le> length inp"
    and "sent_inv U inp start sents"
  shows "sent_inv U inp start' sents'"
  using assms
proof (induction ms arbitrary: sents start)
  case Nil
  then show ?case by simp
next
  case (Cons m ms)
  obtain s e g where m: "m = (s, e, g)" by (cases m)
  let ?chunk = "strip U (slice inp start e)"
  let ?sents = "if ?chunk \<noteq> [] then sents @ [(?chunk, start, e)] else sents"
  from Cons.prems(1) m have loop: "sentence_loop U inp ms ?sents e = (sents', start')"
    by (simp add: Let_def)
  from Cons.prems(3) m have se: "start \<le> s" "s < e" "e \<le> length inp" by auto
  have sorted: "sorted_wrt before ms" using Cons.prems(2) by simp
  have later: "\<forall>m' \<in> set ms. e \<le> fst m' \<and> fst m' < fst (snd m') \<and> fst (snd m') \<le> length inp"
    using Cons.prems(2,3) m by (auto simp: before_def)
  have old: "list_all (\<lambda>x. span_ok e (snd x) \<and> fst x = strip U (slice inp (fst (snd x)) (snd (snd x)))) sents"
    and ends: "\<forall>x \<in> set sents. snd (snd x) \<le> start"
    and srt: "sorted_wrt (\<lambda>a b. snd (snd a) \<le> fst (snd b)) sents"
    using Cons.prems(4) se by (auto simp: sent_inv_def span_ok_def list_all_iff)
  have "sent_inv U inp e ?sents"
    using old ends srt se
    by (auto simp: sent_inv_def span_ok_def list_all_iff sorted_wrt_append)
  from Cons.IH [OF loop sorted later this] show ?case .
qed

lemma terminators_members:
  "m \<in> set (finditer terminator_match inp) \<Longrightarrow> fst m < fst (snd m) \<and> fst (snd m) \<le> length inp"
  using finditer_spans [OF terminator_match_progress, of "fst m" "fst (snd m)" "snd (snd m)" inp]
  by (cases m) auto

lemma split_sentences_inv:
  "sent_inv U inp (length inp) (split_sentences_with_spans U inp)"
proof -
  obtain sents start where loop:
    "sentence_loop U inp (finditer terminator_match inp) [] 0 = (sents, start)"
    by (cases "sentence_loop U inp (finditer terminator_match inp) [] 0")
  have "sent_inv U inp start sents"
  proof (rule sentence_loop_inv [OF loop])
    show "sorted_wrt before (finditer terminator_match inp)"
      by (simp add: finditer_def finditer_from_sorted)
    show "\<forall>m \<in> set (finditer terminator_match inp).
            0 \<le> fst m \<and> fst m < fst (snd m) \<and> fst (snd m) \<le> length inp"
      using terminators_members by blast
    show "sent_inv U inp 0 []" by (simp add: sent_inv_def)
  qed
  then have inv: "start \<le> length inp"
    "sorted_wrt (\<lambda>a b. snd (snd a) \<le> fst (snd b)) sents"
    "\<forall>x \<in> set sents. span_ok start (snd x) \<and> fst x = strip U (slice inp (fst (snd x)) (snd (snd x)))"
    by (auto simp: sent_inv_def list_all_iff)
  then have widen: "sent_inv U inp (length inp) sents"
    by (auto simp: sent_inv_def list_all_iff span_ok_def)
  show ?thesis
  proof (cases "start < length inp \<and> strip U (slice inp start (length inp)) \<noteq> []")
    case False
    with loop widen show ?thesis
      by (auto simp: split_sentences_with_spans_def Let_def)
  next
    case True
    with loop have "split_sentences_with_spans U inp
        = sents @ [(strip U (slice inp start (length inp)), start, length inp)]"
      by (simp add: split_sentences_with_spans_def Let_def)
    moreover have "sent_inv U inp (length inp)
        (sents @ [(strip U (slice inp start (length inp)), start, length inp)])"
      using inv True
      by (auto simp: sent_inv_def list_all_iff span_ok_def sorted_wrt_append)
    ultimately show ?thesis by simp
  qed
qed

lemma sentences_members:
  assumes "(sent, s, e) \<in> set (split_sentences_with_spans U inp)"
  shows "s < e \<and> e \<le> length inp \<and> sent = strip U (slice inp s e)"
  using split_sentences_inv [of U inp] assms
  by (auto simp: sent_inv_def list_all_iff span_ok_def)

lemma sentences_sorted:
  "sorted_wrt (\<lambda>a b. snd (snd a) \<le> fst (snd b)) (split_sentences_with_spans U inp)"
  using split_sentences_inv [of U inp] by (simp add: sent_inv_def)


subsection \<open>The three passes\<close>

lemma lint_text_Inr:
  assumes "lint_text U fs inp ap fp cp n = Inr issues"
  shows "\<exists>approved forbidden.
           effective_approved U fs ap cp = Inr approved
         \<and> effective_forbidden U fs fp = Inr forbidden
         \<and> issues = sentence_issues U inp n @ word_issues U approved forbidden inp @ passive_issues U inp"
  using assms
  by (auto simp: lint_text_def then_do_def split: sum.splits)

lemma enumerate_sentences_sorted:
  "sorted_wrt (\<lambda>x y. fst x < fst y \<and> fst (snd (snd x)) < snd (snd (snd x))
                    \<and> snd (snd (snd x)) \<le> fst (snd (snd y)))
     (List.enumerate 0 (split_sentences_with_spans U inp))"
proof -
  let ?ss = "split_sentences_with_spans U inp"
  have order: "snd (snd (?ss ! i)) \<le> fst (snd (?ss ! j))" if "i < j" "j < length ?ss" for i j
    using sentences_sorted [of U inp] that by (simp add: sorted_wrt_iff_nth_less)
  have nonempty: "fst (snd (?ss ! i)) < snd (snd (?ss ! i))" if "i < length ?ss" for i
  proof -
    obtain sent s e where x: "?ss ! i = (sent, s, e)" by (cases "?ss ! i")
    with that have "(sent, s, e) \<in> set ?ss" by (metis nth_mem)
    from sentences_members [OF this] x show ?thesis by simp
  qed
  show ?thesis
    using order nonempty by (simp add: sorted_wrt_iff_nth_less nth_enumerate_eq)
qed

lemma sentence_issue_members:
  assumes "a \<in> set (sentence_issue n x)"
  shows "itype a = SentenceTooLong \<and> sentence_index a = Some (fst x) \<and> span a = snd (snd x)"
  using assms by (auto simp: sentence_issue_def Let_def split: prod.splits if_splits)

lemma sentence_issue_short: "length (sentence_issue n x) \<le> 1"
  by (auto simp: sentence_issue_def Let_def split: prod.splits)

lemma short_sorted_wrt: "length xs \<le> 1 \<Longrightarrow> sorted_wrt Q xs"
  by (cases xs) auto

lemma sentence_issues_members:
  assumes "a \<in> set (sentence_issues U inp n)"
  shows "itype a = SentenceTooLong \<and> span_ok (length inp) (span a)"
proof -
  from assms obtain x where x: "x \<in> set (List.enumerate 0 (split_sentences_with_spans U inp))"
    and a: "a \<in> set (sentence_issue n x)"
    by (auto simp: sentence_issues_def)
  obtain k sent s e where xe: "x = (k, sent, s, e)" by (cases x) auto
  with x have "k < length (split_sentences_with_spans U inp)"
    and "split_sentences_with_spans U inp ! k = (sent, s, e)"
    by (auto simp: in_set_enumerate_eq)
  then have "(sent, s, e) \<in> set (split_sentences_with_spans U inp)"
    by (metis nth_mem)
  from sentences_members [OF this] sentence_issue_members [OF a] xe show ?thesis
    by (simp add: span_ok_def)
qed

lemma sentence_issues_sorted:
  "sorted_wrt (\<lambda>a b. index_before a b \<and> precedes a b) (sentence_issues U inp n)"
  unfolding sentence_issues_def
proof (rule sorted_wrt_concat_map [OF enumerate_sentences_sorted])
  fix x
  show "sorted_wrt (\<lambda>a b. index_before a b \<and> precedes a b) (sentence_issue n x)"
    by (rule short_sorted_wrt [OF sentence_issue_short])
next
  fix x y a b
  assume xy: "fst x < fst y \<and> fst (snd (snd x)) < snd (snd (snd x))
                \<and> snd (snd (snd x)) \<le> fst (snd (snd y))"
    and a: "a \<in> set (sentence_issue n x)" and b: "b \<in> set (sentence_issue n y)"
  from sentence_issue_members [OF a] sentence_issue_members [OF b] xy
  show "index_before a b \<and> precedes a b"
    by (auto simp: index_before_def precedes_def)
qed

subsection \<open>Word issues\<close>

lemma word_issue_members:
  assumes "a \<in> set (word_issue U approved forbidden x)"
  shows "(itype a = ForbiddenWord \<or> itype a = UnapprovedWord) \<and> span a = snd x"
  using assms
  by (cases x) (auto simp: word_issue_def forbidden_issue_def unapproved_issue_def Let_def split: if_splits)

lemma word_issue_short: "length (word_issue U approved forbidden x) \<le> 1"
  by (simp add: word_issue_def Let_def)

lemma word_issues_members:
  assumes "a \<in> set (word_issues U approved forbidden inp)"
  shows "(itype a = ForbiddenWord \<or> itype a = UnapprovedWord) \<and> span_ok (length inp) (span a)"
proof -
  from assms obtain x where x: "x \<in> set (tokenize_words_with_spans inp)"
    and a: "a \<in> set (word_issue U approved forbidden x)"
    by (auto simp: word_issues_def)
  obtain tok s e where "x = (tok, s, e)" by (cases x)
  with x tokens_members [of tok s e inp] word_issue_members [OF a] show ?thesis
    by (simp add: span_ok_def)
qed

lemma word_issues_sorted: "sorted_wrt precedes (word_issues U approved forbidden inp)"
  unfolding word_issues_def
proof (rule sorted_wrt_concat_map [OF tokens_sorted])
  fix x
  show "sorted_wrt precedes (word_issue U approved forbidden x)"
    by (rule short_sorted_wrt [OF word_issue_short])
next
  fix x y :: "str \<times> nat \<times> nat" and a b
  assume "fst (snd x) < fst (snd y) \<and> snd (snd x) \<le> fst (snd y)"
    and a: "a \<in> set (word_issue U approved forbidden x)"
    and b: "b \<in> set (word_issue U approved forbidden y)"
  with word_issue_members [OF a] word_issue_members [OF b] show "precedes a b"
    by (simp add: precedes_def)
qed

subsection \<open>Passive-voice issues\<close>

lemma passive_issues_members:
  assumes "a \<in> set (passive_issues U inp)"
  shows "itype a = PassiveVoice \<and> span_ok (length inp) (span a)"
proof -
  from assms obtain s e g where m: "(s, e, g) \<in> set (finditer (passive_match U) inp)"
    and a: "a = passive_issue inp (s, e, g)"
    by (auto simp: passive_issues_def)
  from finditer_spans [OF passive_match_progress m] a show ?thesis
    by (simp add: passive_issue_def span_ok_def)
qed

lemma passive_issues_sorted: "sorted_wrt precedes (passive_issues U inp)"
proof -
  have "sorted_wrt before (finditer (passive_match U) inp)"
    by (simp add: finditer_def finditer_from_sorted)
  then show ?thesis
    unfolding passive_issues_def sorted_wrt_map
    by (rule sorted_wrt_mono_rel [rotated])
       (auto simp: before_def precedes_def passive_issue_def split: prod.splits)
qed

subsection \<open>The issue list\<close>

text \<open>
  Claim C9. Every issue that \<open>lint_text\<close> returns has a span \<open>(start, end)\<close> with
  \<open>0 \<le> start \<le> end \<le> len(text)\<close>: it lies within the text that was linted. (Offsets are
  natural numbers, so \<open>0 \<le> start\<close> needs no statement.)
\<close>

theorem issue_spans_within_text:
  assumes "lint_text U fs inp approved_path forbidden_path allcaps_path n = Inr issues"
    and "a \<in> set issues"
  shows "fst (span a) \<le> snd (span a) \<and> snd (span a) \<le> length inp"
proof -
  from lint_text_Inr [OF assms(1)] obtain approved forbidden where
    "issues = sentence_issues U inp n @ word_issues U approved forbidden inp @ passive_issues U inp"
    by blast
  with assms(2) have "span_ok (length inp) (span a)"
    using sentence_issues_members word_issues_members passive_issues_members by auto
  then show ?thesis by (simp add: span_ok_def)
qed

text \<open>
  Claim C1. The issue list of \<open>lint_text\<close> is three lists one after the other: the
  SentenceTooLong issues, with ascending sentence indices and each sentence's span wholly
  before the next one's; then the ForbiddenWord and UnapprovedWord issues, each span
  wholly before the next; then the PassiveVoice issues, each span wholly before the next.
\<close>

theorem lint_three_phases:
  assumes "lint_text U fs inp approved_path forbidden_path allcaps_path n = Inr issues"
  shows "\<exists>A B C. issues = A @ B @ C
           \<and> list_all (\<lambda>a. itype a = SentenceTooLong) A
           \<and> sorted_wrt index_before A \<and> sorted_wrt precedes A
           \<and> list_all (\<lambda>a. itype a = ForbiddenWord \<or> itype a = UnapprovedWord) B
           \<and> sorted_wrt precedes B
           \<and> list_all (\<lambda>a. itype a = PassiveVoice) C
           \<and> sorted_wrt precedes C"
proof -
  from lint_text_Inr [OF assms] obtain approved forbidden where
    parts: "issues = sentence_issues U inp n @ word_issues U approved forbidden inp @ passive_issues U inp"
    by blast
  have s1: "sorted_wrt index_before (sentence_issues U inp n)"
    and s2: "sorted_wrt precedes (sentence_issues U inp n)"
    using sentence_issues_sorted [of U inp n]
    by (auto elim: sorted_wrt_mono_rel [rotated])
  have "list_all (\<lambda>a. itype a = SentenceTooLong) (sentence_issues U inp n)"
    using sentence_issues_members by (auto simp: list_all_iff)
  moreover have "list_all (\<lambda>a. itype a = ForbiddenWord \<or> itype a = UnapprovedWord)
                   (word_issues U approved forbidden inp)"
    using word_issues_members by (auto simp: list_all_iff)
  moreover have "list_all (\<lambda>a. itype a = PassiveVoice) (passive_issues U inp)"
    using passive_issues_members by (auto simp: list_all_iff)
  ultimately show ?thesis
    using parts s1 s2 word_issues_sorted passive_issues_sorted by blast
qed


lemma demo_run:
  "lint_text ascii_db demo_fs demo_text (py ''approved.txt'') (py ''forbidden.txt'') (py ''allcaps.txt'') 3
     = Inr demo_issues"
  by code_simp

theorem issue_spans_within_text_witness:
  "lint_text ascii_db demo_fs demo_text (py ''approved.txt'') (py ''forbidden.txt'') (py ''allcaps.txt'') 3
     = Inr demo_issues
   \<and> demo_issues ! 3 \<in> set demo_issues
   \<and> span (demo_issues ! 3) = (10, 20)
   \<and> fst (span (demo_issues ! 3)) \<le> snd (span (demo_issues ! 3))
   \<and> snd (span (demo_issues ! 3)) \<le> length demo_text"
proof -
  have m: "demo_issues ! 3 \<in> set demo_issues" by (simp add: demo_issues_def)
  have s: "span (demo_issues ! 3) = (10, 20)" by (simp add: demo_issues_def)
  from issue_spans_within_text [OF demo_run m] demo_run m s show ?thesis by simp
qed

theorem lint_three_phases_witness:
  "lint_text ascii_db demo_fs demo_text (py ''approved.txt'') (py ''forbidden.txt'') (py ''allcaps.txt'') 3
     = Inr demo_issues
   \<and> (\<exists>A B C. demo_issues = A @ B @ C
           \<and> list_all (\<lambda>a. itype a = SentenceTooLong) A
           \<and> sorted_wrt index_before A \<and> sorted_wrt precedes A
           \<and> list_all (\<lambda>a. itype a = ForbiddenWord \<or> itype a = UnapprovedWord) B
           \<and> sorted_wrt precedes B
           \<and> list_all (\<lambda>a. itype a = PassiveVoice) C
           \<and> sorted_wrt precedes C)"
  using lint_three_phases [OF demo_run] demo_run by blast

subsection \<open>One token, one check\<close>

lemma filter_concat_map:
  "filter P (concat (map f xs)) = concat (map (\<lambda>x. filter P (f x)) xs)"
  by (induction xs) simp_all

lemma filter_key_distinct:
  assumes "distinct (map g xs)" and "x \<in> set xs"
  shows "filter (\<lambda>y. g y = g x) xs = [x]"
  using assms
proof (induction xs)
  case Nil
  then show ?case by simp
next
  case (Cons y ys)
  show ?case
  proof (cases "y = x")
    case True
    with Cons.prems(1) have "g x \<notin> g ` set ys" by simp
    then have "\<forall>z \<in> set ys. g z \<noteq> g x" by (metis imageI)
    then have "filter (\<lambda>y. g y = g x) ys = []" by (simp add: filter_empty_conv)
    with True show ?thesis by simp
  next
    case False
    with Cons.prems have "x \<in> set ys" "g y \<noteq> g x" by auto
    with Cons.IH Cons.prems(1) show ?thesis by simp
  qed
qed

lemma concat_map_select:
  assumes "distinct (map g xs)" and "x \<in> set xs"
  shows "concat (map (\<lambda>y. if g y = g x then f y else []) xs) = f x"
proof -
  have "concat (map (\<lambda>y. if g y = g x then f y else []) xs)
          = concat (map f (filter (\<lambda>y. g y = g x) xs))"
    by (induction xs) simp_all
  with filter_key_distinct [OF assms] show ?thesis by simp
qed

lemma tokens_distinct_spans: "distinct (map snd (tokenize_words_with_spans inp))"
proof -
  have "sorted_wrt (\<lambda>a b. snd a \<noteq> snd b) (tokenize_words_with_spans inp)"
    by (rule sorted_wrt_mono_rel [OF _ tokens_sorted]) auto
  then show ?thesis by (simp add: distinct_map distinct_conv_nth sorted_wrt_iff_nth_less inj_on_def)
      (metis in_set_conv_nth linorder_neqE_nat)
qed

lemma word_issues_at_token:
  assumes "(tok, s, e) \<in> set (tokenize_words_with_spans inp)"
  shows "word_issues_at (word_issues U approved forbidden inp) (s, e)
           = word_issue U approved forbidden (tok, s, e)"
proof -
  let ?P = "\<lambda>a. (itype a = ForbiddenWord \<or> itype a = UnapprovedWord) \<and> span a = (s, e)"
  have sel: "filter ?P (word_issue U approved forbidden y)
               = (if snd y = snd (tok, s, e) then word_issue U approved forbidden y else [])" for y
    using word_issue_members [of _ U approved forbidden y]
    by (auto simp: filter_empty_conv filter_id_conv)
  show ?thesis
    unfolding word_issues_at_def word_issues_def filter_concat_map sel
    by (rule concat_map_select [OF tokens_distinct_spans assms])
qed

lemma word_issues_at_lint:
  assumes "issues = sentence_issues U inp n @ word_issues U approved forbidden inp @ passive_issues U inp"
  shows "word_issues_at issues sp = word_issues_at (word_issues U approved forbidden inp) sp"
proof -
  have "filter (\<lambda>a. (itype a = ForbiddenWord \<or> itype a = UnapprovedWord) \<and> span a = sp)
          (sentence_issues U inp n) = []"
    using sentence_issues_members [of _ U inp n] by (auto simp: filter_empty_conv)
  moreover have "filter (\<lambda>a. (itype a = ForbiddenWord \<or> itype a = UnapprovedWord) \<and> span a = sp)
          (passive_issues U inp) = []"
    using passive_issues_members [of _ U inp] by (auto simp: filter_empty_conv)
  ultimately show ?thesis by (simp add: assms word_issues_at_def)
qed

text \<open>
  Claim C2. For every token occurrence \<open>(tok, s, e)\<close> of the linted text, the word-level
  issues of the result at the span \<open>(s, e)\<close> are: none when the token's lower case is all
  digits, or is shorter than 3 characters, or the token is an acronym (\<open>is_acronym\<close>:
  \<open>str.isupper()\<close>, that is no lowercase letter and at least one uppercase one, and at
  least 2 alphabetic characters); otherwise exactly one ForbiddenWord issue, and no
  UnapprovedWord issue, when the lower case is in the forbidden set; otherwise exactly one
  UnapprovedWord issue when it is not in the effective approved set.
\<close>

theorem word_check_per_token:
  assumes "lint_text U fs inp approved_path forbidden_path allcaps_path n = Inr issues"
    and "(tok, s, e) \<in> set (tokenize_words_with_spans inp)"
  shows "\<exists>approved forbidden.
           effective_approved U fs approved_path allcaps_path = Inr approved
         \<and> effective_forbidden U fs forbidden_path = Inr forbidden
         \<and> (isdigit U (lower U tok) \<or> length (lower U tok) < 3 \<or> is_acronym U tok
              \<longrightarrow> word_issues_at issues (s, e) = [])
         \<and> (\<not> (isdigit U (lower U tok) \<or> length (lower U tok) < 3 \<or> is_acronym U tok)
              \<and> lower U tok \<in> forbidden
              \<longrightarrow> word_issues_at issues (s, e) = [forbidden_issue (tok, s, e)])
         \<and> (\<not> (isdigit U (lower U tok) \<or> length (lower U tok) < 3 \<or> is_acronym U tok)
              \<and> lower U tok \<notin> forbidden \<and> lower U tok \<notin> approved
              \<longrightarrow> word_issues_at issues (s, e) = [unapproved_issue (tok, s, e)])"
proof -
  from lint_text_Inr [OF assms(1)] obtain approved forbidden where
    ea: "effective_approved U fs approved_path allcaps_path = Inr approved"
    and ef: "effective_forbidden U fs forbidden_path = Inr forbidden"
    and parts: "issues = sentence_issues U inp n @ word_issues U approved forbidden inp @ passive_issues U inp"
    by blast
  have "word_issues_at issues (s, e) = word_issue U approved forbidden (tok, s, e)"
    using word_issues_at_lint [OF parts] word_issues_at_token [OF assms(2)] by simp
  then show ?thesis using ea ef
    by (auto simp: word_issue_def skipped_def Let_def)
qed

lemma words_run:
  "lint_text ascii_db demo_fs words_text (py ''approved.txt'') (py ''forbidden.txt'') (py ''allcaps.txt'') 20
     = Inr words_issues"
  by code_simp

lemma words_tokens:
  "tokenize_words_with_spans words_text
     = [(py ''NASA'', 0, 4), (py ''will'', 5, 9), (py ''abandon'', 10, 17), (py ''the'', 18, 21),
        (py ''valve'', 22, 27)]"
  by code_simp

lemma demo_sets:
  "effective_approved ascii_db demo_fs (py ''approved.txt'') (py ''allcaps.txt'') = Inr {py ''the'', py ''valve''}"
  "effective_forbidden ascii_db demo_fs (py ''forbidden.txt'') = Inr {py ''abandon''}"
  by code_simp+

theorem word_check_per_token_witness:
  "lint_text ascii_db demo_fs words_text (py ''approved.txt'') (py ''forbidden.txt'') (py ''allcaps.txt'') 20
     = Inr words_issues
   \<and> effective_approved ascii_db demo_fs (py ''approved.txt'') (py ''allcaps.txt'') = Inr {py ''the'', py ''valve''}
   \<and> effective_forbidden ascii_db demo_fs (py ''forbidden.txt'') = Inr {py ''abandon''}
   \<and> (py ''NASA'', 0, 4) \<in> set (tokenize_words_with_spans words_text)
   \<and> is_acronym ascii_db (py ''NASA'')
   \<and> word_issues_at words_issues (0, 4) = []
   \<and> (py ''abandon'', 10, 17) \<in> set (tokenize_words_with_spans words_text)
   \<and> \<not> (isdigit ascii_db (lower ascii_db (py ''abandon'')) \<or> length (lower ascii_db (py ''abandon'')) < 3
         \<or> is_acronym ascii_db (py ''abandon''))
   \<and> lower ascii_db (py ''abandon'') \<in> {py ''abandon''}
   \<and> word_issues_at words_issues (10, 17) = [forbidden_issue (py ''abandon'', 10, 17)]
   \<and> (py ''will'', 5, 9) \<in> set (tokenize_words_with_spans words_text)
   \<and> \<not> (isdigit ascii_db (lower ascii_db (py ''will'')) \<or> length (lower ascii_db (py ''will'')) < 3
         \<or> is_acronym ascii_db (py ''will''))
   \<and> lower ascii_db (py ''will'') \<notin> {py ''abandon''}
   \<and> lower ascii_db (py ''will'') \<notin> {py ''the'', py ''valve''}
   \<and> word_issues_at words_issues (5, 9) = [unapproved_issue (py ''will'', 5, 9)]"
proof -
  have t1: "(py ''NASA'', 0, 4) \<in> set (tokenize_words_with_spans words_text)"
    and t2: "(py ''abandon'', 10, 17) \<in> set (tokenize_words_with_spans words_text)"
    and t3: "(py ''will'', 5, 9) \<in> set (tokenize_words_with_spans words_text)"
    by (simp_all add: words_tokens)
  have c1: "is_acronym ascii_db (py ''NASA'')" by code_simp
  have c2: "\<not> (isdigit ascii_db (lower ascii_db (py ''abandon'')) \<or> length (lower ascii_db (py ''abandon'')) < 3
         \<or> is_acronym ascii_db (py ''abandon''))"
    and l2: "lower ascii_db (py ''abandon'') \<in> {py ''abandon''}"
    by code_simp+
  have c3: "\<not> (isdigit ascii_db (lower ascii_db (py ''will'')) \<or> length (lower ascii_db (py ''will'')) < 3
         \<or> is_acronym ascii_db (py ''will''))"
    and l3: "lower ascii_db (py ''will'') \<notin> {py ''abandon''}"
      "lower ascii_db (py ''will'') \<notin> {py ''the'', py ''valve''}"
    by code_simp+
  from word_check_per_token [OF words_run t1] c1
  have r1: "word_issues_at words_issues (0, 4) = []" by auto
  from word_check_per_token [OF words_run t2] demo_sets c2 l2
  have r2: "word_issues_at words_issues (10, 17) = [forbidden_issue (py ''abandon'', 10, 17)]"
    by auto
  from word_check_per_token [OF words_run t3] demo_sets c3 l3
  have r3: "word_issues_at words_issues (5, 9) = [unapproved_issue (py ''will'', 5, 9)]"
    by auto
  from words_run demo_sets t1 t2 t3 c1 c2 c3 l2 l3 r1 r2 r3 show ?thesis by blast
qed

subsection \<open>The sentence-length limit\<close>

lemma length_issues_of_lint:
  assumes "issues = sentence_issues U inp n @ word_issues U approved forbidden inp @ passive_issues U inp"
  shows "length_issues_of issues k = length_issues_of (sentence_issues U inp n) k"
proof -
  have "filter (\<lambda>a. itype a = SentenceTooLong \<and> sentence_index a = Some k)
          (word_issues U approved forbidden inp) = []"
    by (auto simp: filter_empty_conv dest: word_issues_members)
  moreover have "filter (\<lambda>a. itype a = SentenceTooLong \<and> sentence_index a = Some k)
          (passive_issues U inp) = []"
    by (auto simp: filter_empty_conv dest: passive_issues_members)
  ultimately show ?thesis by (simp add: assms length_issues_of_def)
qed

lemma length_issues_of_sentence:
  assumes "k < length (split_sentences_with_spans U inp)"
  shows "length_issues_of (sentence_issues U inp n) k
           = sentence_issue n (k, split_sentences_with_spans U inp ! k)"
proof -
  let ?xs = "List.enumerate 0 (split_sentences_with_spans U inp)"
  let ?x = "(k, split_sentences_with_spans U inp ! k)"
  have mem: "?x \<in> set ?xs" using assms by (simp add: in_set_enumerate_eq)
  have dist: "distinct (map fst ?xs)" by simp
  have sel: "filter (\<lambda>a. itype a = SentenceTooLong \<and> sentence_index a = Some k) (sentence_issue n y)
               = (if fst y = fst ?x then sentence_issue n y else [])" for y
    using sentence_issue_members [of _ n y]
    by (auto simp: filter_empty_conv filter_id_conv)
  show ?thesis
    unfolding length_issues_of_def sentence_issues_def filter_concat_map sel
    by (rule concat_map_select [OF dist mem])
qed

lemma message_21: "py ''Sentence has '' @ str_of_int (int 21) @ py '' words (>'' @ str_of_int 20 @ py '').''
    = py ''Sentence has 21 words (>20).''"
  by code_simp

text \<open>
  Claim C3. With the limit at its default of 20: for the sentence with index \<open>k\<close>, text
  \<open>sent\<close> and span \<open>(s, e)\<close>, the result holds no SentenceTooLong issue for it when it has
  exactly 20 tokens, and exactly one when it has 21, with the message
  \<open>Sentence has 21 words (>20).\<close> and the span \<open>(s, e)\<close>, which is the span whose stripped
  text the sentence is.
\<close>

theorem sentence_length_boundary:
  assumes "lint_text U fs inp approved_path forbidden_path allcaps_path 20 = Inr issues"
    and "k < length (split_sentences_with_spans U inp)"
    and "split_sentences_with_spans U inp ! k = (sent, s, e)"
  shows "(length (tokenize_words_with_spans sent) = 20 \<longrightarrow> length_issues_of issues k = [])
       \<and> (length (tokenize_words_with_spans sent) = 21
            \<longrightarrow> length_issues_of issues k = [too_long_21 k (s, e)])
       \<and> sent = strip U (slice inp s e) \<and> s < e \<and> e \<le> length inp"
proof -
  from lint_text_Inr [OF assms(1)] obtain approved forbidden where
    parts: "issues = sentence_issues U inp 20 @ word_issues U approved forbidden inp @ passive_issues U inp"
    by blast
  have eq: "length_issues_of issues k = sentence_issue 20 (k, sent, s, e)"
    using length_issues_of_lint [OF parts] length_issues_of_sentence [OF assms(2)] assms(3)
    by simp
  have "(sent, s, e) \<in> set (split_sentences_with_spans U inp)"
    using assms(2,3) by (metis nth_mem)
  from sentences_members [OF this] have cover: "sent = strip U (slice inp s e) \<and> s < e \<and> e \<le> length inp"
    by simp
  have "length (tokenize_words_with_spans sent) = 20 \<Longrightarrow> sentence_issue 20 (k, sent, s, e) = []"
    by (simp add: sentence_issue_def)
  moreover have "length (tokenize_words_with_spans sent) = 21
      \<Longrightarrow> sentence_issue 20 (k, sent, s, e) = [too_long_21 k (s, e)]"
    using message_21 by (simp add: sentence_issue_def too_long_21_def)
  ultimately show ?thesis using eq cover by simp
qed

lemma boundary_sentences:
  "split_sentences_with_spans ascii_db boundary_text
     = [(py ''a b c d e f g h i j k l m n o p q r s t u.'', 0, 42),
        (py ''a b c d e f g h i j k l m n o p q r s t.'', 42, 83)]"
  by code_simp

lemma boundary_counts:
  "length (tokenize_words_with_spans (py ''a b c d e f g h i j k l m n o p q r s t u.'')) = 21"
  "length (tokenize_words_with_spans (py ''a b c d e f g h i j k l m n o p q r s t.'')) = 20"
  by code_simp+

lemma word_issue_short_token:
  "length (lower U tok) < 3 \<Longrightarrow> word_issue U approved forbidden (tok, s, e) = []"
  by (simp add: word_issue_def skipped_def Let_def)

lemma word_issues_all_short:
  assumes "list_all (\<lambda>x. length (lower U (fst x)) < 3) (tokenize_words_with_spans inp)"
  shows "word_issues U approved forbidden inp = []"
proof -
  have "word_issue U approved forbidden x = []" if "x \<in> set (tokenize_words_with_spans inp)" for x
    using assms that word_issue_short_token [of U "fst x" approved forbidden "fst (snd x)" "snd (snd x)"]
    by (simp add: list_all_iff)
  then show ?thesis by (simp add: word_issues_def)
qed

lemma boundary_short_tokens:
  "list_all (\<lambda>x. length (lower ascii_db (fst x)) < 3) (tokenize_words_with_spans boundary_text)"
  by code_simp

lemma boundary_no_passive: "finditer (passive_match ascii_db) boundary_text = []"
  by code_simp

lemma boundary_run:
  "lint_text ascii_db demo_fs boundary_text (py ''approved.txt'') (py ''forbidden.txt'') (py ''allcaps.txt'') 20
     = Inr [too_long_21 0 (0, 42)]"
proof -
  have "sentence_issues ascii_db boundary_text 20 = [too_long_21 0 (0, 42)]"
    using message_21
    by (simp add: sentence_issues_def boundary_sentences enumerate_eq_zip sentence_issue_def
        boundary_counts too_long_21_def)
  then show ?thesis
    by (simp add: lint_text_def demo_sets then_do_def word_issues_all_short [OF boundary_short_tokens]
        passive_issues_def boundary_no_passive)
qed

theorem sentence_length_boundary_witness:
  "lint_text ascii_db demo_fs boundary_text (py ''approved.txt'') (py ''forbidden.txt'') (py ''allcaps.txt'') 20
     = Inr [too_long_21 0 (0, 42)]
   \<and> split_sentences_with_spans ascii_db boundary_text ! 0
       = (py ''a b c d e f g h i j k l m n o p q r s t u.'', 0, 42)
   \<and> length (tokenize_words_with_spans (py ''a b c d e f g h i j k l m n o p q r s t u.'')) = 21
   \<and> length_issues_of [too_long_21 0 (0, 42)] 0 = [too_long_21 0 (0, 42)]
   \<and> split_sentences_with_spans ascii_db boundary_text ! 1
       = (py ''a b c d e f g h i j k l m n o p q r s t.'', 42, 83)
   \<and> length (tokenize_words_with_spans (py ''a b c d e f g h i j k l m n o p q r s t.'')) = 20
   \<and> length_issues_of [too_long_21 0 (0, 42)] 1 = []"
proof -
  have k0: "0 < length (split_sentences_with_spans ascii_db boundary_text)"
    and k1: "1 < length (split_sentences_with_spans ascii_db boundary_text)"
    and s0: "split_sentences_with_spans ascii_db boundary_text ! 0
       = (py ''a b c d e f g h i j k l m n o p q r s t u.'', 0, 42)"
    and s1: "split_sentences_with_spans ascii_db boundary_text ! 1
       = (py ''a b c d e f g h i j k l m n o p q r s t.'', 42, 83)"
    by (simp_all add: boundary_sentences)
  from sentence_length_boundary [OF boundary_run k0 s0] boundary_counts(1)
  have r0: "length_issues_of [too_long_21 0 (0, 42)] 0 = [too_long_21 0 (0, 42)]" by simp
  from sentence_length_boundary [OF boundary_run k1 s1] boundary_counts(2)
  have r1: "length_issues_of [too_long_21 0 (0, 42)] 1 = []" by simp
  from boundary_run s0 s1 boundary_counts r0 r1 show ?thesis by simp
qed

subsection \<open>Missing word lists\<close>

lemma load_wordlist_missing: "fs p = None \<Longrightarrow> load_wordlist U fs p = Inl FileNotFoundError"
  by (simp add: load_wordlist_def)

lemma load_wordlist_present: "fs p \<noteq> None \<Longrightarrow> \<exists>ws. load_wordlist U fs p = Inr ws"
  by (auto simp: load_wordlist_def)

lemma load_wordlist_empty: "fs p = Some [] \<Longrightarrow> load_wordlist U fs p = Inr {}"
  by (simp add: load_wordlist_def lines_of.simps [of "[]"])

lemma load_wordlist_other: "q \<noteq> p \<Longrightarrow> load_wordlist U (fs(q \<mapsto> c)) p = load_wordlist U fs p"
  by (simp add: load_wordlist_def)

text \<open>
  Claim C10. When the approved word list does not exist, \<open>lint_text\<close> raises
  FileNotFoundError and returns no issue list. When it exists, \<open>lint_text\<close> returns an issue
  list whether or not the other two files exist, and a missing forbidden list or a missing
  ALL-CAPS list gives the result that an empty file at that path gives.
\<close>

theorem lexicon_files_at_lint_time:
  "(fs approved_path = None
      \<longrightarrow> lint_text U fs inp approved_path forbidden_path allcaps_path n = Inl FileNotFoundError)
   \<and> (fs approved_path \<noteq> None
      \<longrightarrow> (\<exists>issues. lint_text U fs inp approved_path forbidden_path allcaps_path n = Inr issues))
   \<and> (fs approved_path \<noteq> None \<and> fs forbidden_path = None
      \<longrightarrow> effective_forbidden U fs forbidden_path = Inr {}
          \<and> lint_text U fs inp approved_path forbidden_path allcaps_path n
            = lint_text U (fs(forbidden_path \<mapsto> [])) inp approved_path forbidden_path allcaps_path n)
   \<and> (fs approved_path \<noteq> None \<and> fs allcaps_path = None
      \<longrightarrow> lint_text U fs inp approved_path forbidden_path allcaps_path n
            = lint_text U (fs(allcaps_path \<mapsto> [])) inp approved_path forbidden_path allcaps_path n)"
proof (intro conjI impI)
  assume "fs approved_path = None"
  then show "lint_text U fs inp approved_path forbidden_path allcaps_path n = Inl FileNotFoundError"
    by (simp add: lint_text_def effective_approved_def load_wordlist_missing then_do_def)
next
  assume "fs approved_path \<noteq> None"
  then obtain a where a: "load_wordlist U fs approved_path = Inr a"
    using load_wordlist_present by blast
  have "\<exists>c. (if path_exists fs allcaps_path then load_wordlist U fs allcaps_path else Inr {}) = Inr c"
    using load_wordlist_present [of fs allcaps_path U] by (auto simp: path_exists_def)
  moreover have "\<exists>f. effective_forbidden U fs forbidden_path = Inr f"
    using load_wordlist_present [of fs forbidden_path U]
    by (auto simp: effective_forbidden_def path_exists_def then_do_def)
  ultimately show "\<exists>issues. lint_text U fs inp approved_path forbidden_path allcaps_path n = Inr issues"
    using a by (auto simp: lint_text_def effective_approved_def then_do_def split: if_splits)
next
  assume h: "fs approved_path \<noteq> None \<and> fs forbidden_path = None"
  then show "effective_forbidden U fs forbidden_path = Inr {}"
    by (simp add: effective_forbidden_def path_exists_def)
next
  assume h: "fs approved_path \<noteq> None \<and> fs forbidden_path = None"
  let ?fs = "fs(forbidden_path \<mapsto> [])"
  from h have ne: "forbidden_path \<noteq> approved_path" by auto
  have f: "effective_forbidden U ?fs forbidden_path = effective_forbidden U fs forbidden_path"
    using h by (simp add: effective_forbidden_def path_exists_def load_wordlist_empty then_do_def)
  have "effective_approved U ?fs approved_path allcaps_path
          = effective_approved U fs approved_path allcaps_path"
  proof (cases "allcaps_path = forbidden_path")
    case True
    with h ne show ?thesis
      by (simp add: effective_approved_def path_exists_def load_wordlist_empty load_wordlist_other
          then_do_def split: sum.splits)
  next
    case False
    then have "forbidden_path \<noteq> allcaps_path" by blast
    with ne show ?thesis
      by (simp add: effective_approved_def path_exists_def load_wordlist_other cong: if_cong)
  qed
  with f show "lint_text U fs inp approved_path forbidden_path allcaps_path n
            = lint_text U ?fs inp approved_path forbidden_path allcaps_path n"
    by (simp add: lint_text_def)
next
  assume h: "fs approved_path \<noteq> None \<and> fs allcaps_path = None"
  let ?fs = "fs(allcaps_path \<mapsto> [])"
  from h have ne: "allcaps_path \<noteq> approved_path" by auto
  have a: "effective_approved U ?fs approved_path allcaps_path
          = effective_approved U fs approved_path allcaps_path"
    using h ne
    by (simp add: effective_approved_def path_exists_def load_wordlist_empty load_wordlist_other
        then_do_def split: sum.splits)
  have "effective_forbidden U ?fs forbidden_path = effective_forbidden U fs forbidden_path"
  proof (cases "forbidden_path = allcaps_path")
    case True
    with h show ?thesis
      by (simp add: effective_forbidden_def path_exists_def load_wordlist_empty then_do_def)
  next
    case False
    then have "allcaps_path \<noteq> forbidden_path" by blast
    then show ?thesis
      by (simp add: effective_forbidden_def path_exists_def load_wordlist_other cong: if_cong)
  qed
  with a show "lint_text U fs inp approved_path forbidden_path allcaps_path n
            = lint_text U ?fs inp approved_path forbidden_path allcaps_path n"
    by (simp add: lint_text_def)
qed

theorem lexicon_files_at_lint_time_witness:
  "demo_fs (py ''missing.txt'') = None
   \<and> lint_text ascii_db demo_fs demo_text (py ''missing.txt'') (py ''forbidden.txt'') (py ''allcaps.txt'') 3
       = Inl FileNotFoundError
   \<and> demo_fs (py ''approved.txt'') \<noteq> None \<and> demo_fs (py ''allcaps.txt'') = None
   \<and> demo_fs (py ''missing.txt'') = None
   \<and> lint_text ascii_db demo_fs demo_text (py ''approved.txt'') (py ''missing.txt'') (py ''allcaps.txt'') 3
       = lint_text ascii_db (demo_fs(py ''missing.txt'' \<mapsto> [])) demo_text
           (py ''approved.txt'') (py ''missing.txt'') (py ''allcaps.txt'') 3
   \<and> effective_forbidden ascii_db demo_fs (py ''missing.txt'') = Inr {}
   \<and> lint_text ascii_db demo_fs demo_text (py ''approved.txt'') (py ''forbidden.txt'') (py ''allcaps.txt'') 3
       = Inr demo_issues
   \<and> lint_text ascii_db (demo_fs(py ''allcaps.txt'' \<mapsto> [])) demo_text
       (py ''approved.txt'') (py ''forbidden.txt'') (py ''allcaps.txt'') 3 = Inr demo_issues"
proof -
  have m: "demo_fs (py ''missing.txt'') = None" and c: "demo_fs (py ''allcaps.txt'') = None"
    and a: "demo_fs (py ''approved.txt'') \<noteq> None"
    by code_simp+
  note t1 = lexicon_files_at_lint_time [of demo_fs "py ''missing.txt''" ascii_db demo_text
      "py ''forbidden.txt''" "py ''allcaps.txt''" 3]
  note t2 = lexicon_files_at_lint_time [of demo_fs "py ''approved.txt''" ascii_db demo_text
      "py ''missing.txt''" "py ''allcaps.txt''" 3]
  note t3 = lexicon_files_at_lint_time [of demo_fs "py ''approved.txt''" ascii_db demo_text
      "py ''forbidden.txt''" "py ''allcaps.txt''" 3]
  from t1 m have r1: "lint_text ascii_db demo_fs demo_text (py ''missing.txt'') (py ''forbidden.txt'')
      (py ''allcaps.txt'') 3 = Inl FileNotFoundError" by blast
  from t2 a m have r2: "effective_forbidden ascii_db demo_fs (py ''missing.txt'') = Inr {}"
    "lint_text ascii_db demo_fs demo_text (py ''approved.txt'') (py ''missing.txt'') (py ''allcaps.txt'') 3
       = lint_text ascii_db (demo_fs(py ''missing.txt'' \<mapsto> [])) demo_text
           (py ''approved.txt'') (py ''missing.txt'') (py ''allcaps.txt'') 3" by blast+
  from t3 a c demo_run have r3: "lint_text ascii_db (demo_fs(py ''allcaps.txt'' \<mapsto> [])) demo_text
       (py ''approved.txt'') (py ''forbidden.txt'') (py ''allcaps.txt'') 3 = Inr demo_issues"
    by metis
  from m c a r1 r2 r3 demo_run show ?thesis by blast
qed

subsection \<open>The sample sentence\<close>

lemma sample_tokens:
  "tokenize_words_with_spans sample_text
     = [(py ''The'', 0, 3), (py ''operator'', 4, 12), (py ''starts'', 13, 19), (py ''the'', 20, 23),
        (py ''system'', 24, 30), (py ''and'', 31, 34), (py ''does'', 35, 39), (py ''the'', 40, 43),
        (py ''procedure'', 44, 53), (py ''in'', 54, 56), (py ''minutes'', 60, 67)]"
  by code_simp

lemma sample_no_passive: "finditer (passive_match U) sample_text = []"
  by code_simp

lemma sample_sentences:
  "split_sentences_with_spans U sample_text = [(sample_text, 0, 68)]"
  by code_simp


lemma sample_lint:
  assumes "effective_approved U fs approved_path allcaps_path = Inr approved"
    and "effective_forbidden U fs forbidden_path = Inr forbidden"
  shows "lint_text U fs sample_text approved_path forbidden_path allcaps_path n
           = Inr (sentence_issue n (0, sample_text, 0, 68) @ word_issues U approved forbidden sample_text)"
  using assms
  by (simp add: lint_text_def then_do_def passive_issues_def sample_no_passive
      sentence_issues_def sample_sentences enumerate_eq_zip)

lemma sample_sets:
  "effective_approved ascii_db sample_fs (py ''approved.txt'') (py ''allcaps.txt'') = Inr (set sample_words)"
  "effective_forbidden ascii_db sample_fs (py ''forbidden.txt'') = Inr {}"
  by code_simp+

lemma sample_word_issues: "word_issues ascii_db (set sample_words) {} sample_text = sample_issues"
  by (simp add: word_issues_def sample_tokens sample_issues_def sample_words_def word_issue_def
      skipped_def Let_def lower_def isdigit_def is_acronym_def isupper_def
      py_def is_ascii_def ascii_lower_def upper_AZ_def lower_az_def digit_def)

text \<open>
  Claim C6, as stated, fails: with the approved set holding exactly operator, start,
  starts, system, do, does, procedure, minute and minutes and an empty forbidden set, the
  sample sentence gets four UnapprovedWord issues, for \<open>The\<close>, \<open>the\<close>, \<open>and\<close> and \<open>the\<close>:
  the word check passes over no article or conjunction of three letters or more.
\<close>

theorem sample_sentence_counterexample:
  "effective_approved ascii_db sample_fs (py ''approved.txt'') (py ''allcaps.txt'') = Inr (set sample_words)
   \<and> effective_forbidden ascii_db sample_fs (py ''forbidden.txt'') = Inr {}
   \<and> lint_text ascii_db sample_fs sample_text (py ''approved.txt'') (py ''forbidden.txt'') (py ''allcaps.txt'') 20
       = Inr sample_issues
   \<and> map itype sample_issues = [UnapprovedWord, UnapprovedWord, UnapprovedWord, UnapprovedWord]"
proof -
  have "sentence_issue 20 (0, sample_text, 0, 68) = []"
    by (simp add: sentence_issue_def sample_tokens)
  with sample_lint [OF sample_sets, of 20] sample_word_issues
  have "lint_text ascii_db sample_fs sample_text (py ''approved.txt'') (py ''forbidden.txt'')
          (py ''allcaps.txt'') 20 = Inr sample_issues"
    by simp
  moreover have "map itype sample_issues = [UnapprovedWord, UnapprovedWord, UnapprovedWord, UnapprovedWord]"
    by (simp add: sample_issues_def unapproved_issue_def)
  ultimately show ?thesis using sample_sets by simp
qed

lemma word_issue_approved:
  "lower U tok \<in> approved \<Longrightarrow> word_issue U approved {} (tok, s, e) = []"
  by (simp add: word_issue_def Let_def)

lemma sample_lowered:
  "lower U (py ''The'') = py ''the''" "lower U (py ''operator'') = py ''operator''"
  "lower U (py ''starts'') = py ''starts''" "lower U (py ''the'') = py ''the''"
  "lower U (py ''system'') = py ''system''" "lower U (py ''and'') = py ''and''"
  "lower U (py ''does'') = py ''does''" "lower U (py ''procedure'') = py ''procedure''"
  "lower U (py ''in'') = py ''in''" "lower U (py ''minutes'') = py ''minutes''"
  by (simp_all add: lower_def py_def is_ascii_def ascii_lower_def upper_AZ_def)

lemma sample_words_clean:
  assumes "set sample_words \<union> {py ''the'', py ''and''} \<subseteq> approved"
  shows "word_issues U approved {} sample_text = []"
proof -
  from assms have "py ''the'' \<in> approved" "py ''operator'' \<in> approved"
    "py ''starts'' \<in> approved" "py ''system'' \<in> approved"
    "py ''and'' \<in> approved" "py ''does'' \<in> approved"
    "py ''procedure'' \<in> approved" "py ''minutes'' \<in> approved"
    by (simp_all add: sample_words_def)
  moreover have "length (py ''in'') < 3" by (simp add: py_def)
  ultimately show ?thesis
    by (simp add: word_issues_def sample_tokens word_issue_approved word_issue_short_token
        sample_lowered)
qed

text \<open>
  Claim C6, amended. When the effective approved set contains operator, start, starts,
  system, do, does, procedure, minute, minutes and also \<open>the\<close> and \<open>and\<close>, and the forbidden
  set is empty, \<open>lint_text\<close> on the sample sentence returns a list without any ForbiddenWord,
  UnapprovedWord or PassiveVoice issue.
\<close>

theorem sample_sentence_clean:
  assumes "effective_approved U fs approved_path allcaps_path = Inr approved"
    and "effective_forbidden U fs forbidden_path = Inr {}"
    and "set sample_words \<union> {py ''the'', py ''and''} \<subseteq> approved"
  shows "\<exists>issues. lint_text U fs sample_text approved_path forbidden_path allcaps_path n = Inr issues
           \<and> filter (\<lambda>a. itype a = ForbiddenWord) issues = []
           \<and> filter (\<lambda>a. itype a = UnapprovedWord) issues = []
           \<and> filter (\<lambda>a. itype a = PassiveVoice) issues = []"
proof -
  have "lint_text U fs sample_text approved_path forbidden_path allcaps_path n
          = Inr (sentence_issues U sample_text n)"
    using assms(1,2) sample_words_clean [OF assms(3)]
    by (simp add: lint_text_def then_do_def passive_issues_def sample_no_passive)
  moreover have "itype a = SentenceTooLong" if "a \<in> set (sentence_issues U sample_text n)" for a
    using sentence_issues_members [OF that] by simp
  ultimately show ?thesis by (auto simp: filter_empty_conv)
qed

theorem sample_sentence_clean_witness:
  "effective_approved ascii_db sample_fs_full (py ''approved.txt'') (py ''allcaps.txt'')
     = Inr (set sample_words \<union> {py ''the'', py ''and''})
   \<and> effective_forbidden ascii_db sample_fs_full (py ''forbidden.txt'') = Inr {}
   \<and> set sample_words \<union> {py ''the'', py ''and''} \<subseteq> set sample_words \<union> {py ''the'', py ''and''}
   \<and> (\<exists>issues. lint_text ascii_db sample_fs_full sample_text (py ''approved.txt'') (py ''forbidden.txt'')
                   (py ''allcaps.txt'') 20 = Inr issues
           \<and> filter (\<lambda>a. itype a = ForbiddenWord) issues = []
           \<and> filter (\<lambda>a. itype a = UnapprovedWord) issues = []
           \<and> filter (\<lambda>a. itype a = PassiveVoice) issues = [])"
proof -
  have a: "effective_approved ascii_db sample_fs_full (py ''approved.txt'') (py ''allcaps.txt'')
     = Inr (set sample_words \<union> {py ''the'', py ''and''})"
    by code_simp
  have f: "effective_forbidden ascii_db sample_fs_full (py ''forbidden.txt'') = Inr {}"
    by code_simp
  from sample_sentence_clean [OF a f subset_refl, of 20] a f show ?thesis by blast
qed

subsection \<open>Loops that may raise\<close>

lemma for_each_total:
  assumes "\<And>s x. x \<in> set xs \<Longrightarrow> \<exists>s'. f s x = Inr s'"
  shows "\<exists>s'. for_each f xs s = Inr s'"
  using assms
proof (induction xs arbitrary: s)
  case Nil
  then show ?case by simp
next
  case (Cons x xs)
  from Cons.prems [of x s] obtain s1 where "f s x = Inr s1" by auto
  moreover from Cons.IH [of s1] Cons.prems obtain s' where "for_each f xs s1 = Inr s'" by auto
  ultimately show ?case by (simp add: then_do_def)
qed

lemma for_each_invariant:
  assumes "for_each f xs s = Inr s'" and "P s"
    and "\<And>s x s'. P s \<Longrightarrow> x \<in> set xs \<Longrightarrow> f s x = Inr s' \<Longrightarrow> P s'"
  shows "P s'"
  using assms
proof (induction xs arbitrary: s)
  case Nil
  then show ?case by simp
next
  case (Cons x xs)
  from Cons.prems(1) obtain s1 where s1: "f s x = Inr s1" "for_each f xs s1 = Inr s'"
    by (auto simp: then_do_def split: sum.splits)
  show ?case
  proof (rule Cons.IH [OF s1(2)])
    show "P s1" by (rule Cons.prems(3) [OF Cons.prems(2) _ s1(1)]) simp
  next
    fix t y t'
    assume t: "P t" and y: "y \<in> set xs" and step: "f t y = Inr t'"
    from y have "y \<in> set (x # xs)" by simp
    from Cons.prems(3) [OF t this step] show "P t'" .
  qed
qed

subsection \<open>The build never fails\<close>

lemma finditer_empty_iff:
  "finditer m inp = [] \<longleftrightarrow> (\<forall>i \<le> length inp. m inp i = None)"
proof
  assume e: "finditer m inp = []"
  have "m inp i = None" if "i \<le> length inp" and "finditer_from m inp j = []" and "j \<le> i" for i j
    using that
  proof (induction "i - j" arbitrary: j)
    case 0
    then have "j = i" by simp
    with 0 show ?case
      by (auto simp: finditer_from.simps [of m inp i] split: option.splits if_splits)
  next
    case (Suc d)
    from Suc.prems Suc.hyps(2) have "j \<le> length inp" "m inp j = None" "finditer_from m inp (Suc j) = []"
      by (auto simp: finditer_from.simps [of m inp j] split: option.splits if_splits)
    with Suc.hyps(1) [of "Suc j"] Suc.hyps(2) Suc.prems show ?case by simp
  qed
  with e show "\<forall>i \<le> length inp. m inp i = None" by (simp add: finditer_def)
next
  assume n: "\<forall>i \<le> length inp. m inp i = None"
  have "finditer_from m inp j = []" for j
  proof (induction "Suc (length inp) - j" arbitrary: j)
    case 0
    then show ?case by (simp add: finditer_from.simps [of m inp j])
  next
    case (Suc d)
    then have "j \<le> length inp" by simp
    with n Suc.hyps(1) [of "Suc j"] Suc.hyps(2) show ?case
      by (simp add: finditer_from.simps [of m inp j])
  qed
  then show "finditer m inp = []" by (simp add: finditer_def)
qed

lemma classify_headword_total:
  "\<exists>acc'. classify_headword U sec acc m = Inr acc'"
proof -
  obtain approved forbidden where acc: "acc = (approved, forbidden)" by (cases acc)
  obtain ms me g1s g1e g2s g2e where m: "m = (ms, me, (g1s, g1e), (g2s, g2e))"
    by (cases m) auto
  let ?hw = "strip U (slice sec g1s g1e)"
  show ?thesis
  proof (cases "list_ex letter ?hw")
    case False
    with acc m show ?thesis by (simp add: classify_headword_def Let_def)
  next
    case True
    then have ne: "?hw \<noteq> []" by auto
    from verb_inflections_shape [OF ne, of U] obtain vf where "verb_inflections U ?hw = Inr vf"
      by blast
    moreover from plural_forms_shape [of U ?hw] obtain nf where "plural_forms U ?hw = Inr nf"
      by blast
    ultimately show ?thesis using acc m
      by (simp add: classify_headword_def Let_def then_do_def)
  qed
qed

lemma build_section_total: "\<exists>acc'. build_section U acc sec = Inr acc'"
  unfolding build_section_def by (rule for_each_total) (rule classify_headword_total)

lemma build_lexicons_total:
  assumes "extract pdf_path = Inr full"
  shows "\<exists>approved forbidden. build_lexicons_from_pdf U extract pdf_path = Inr (approved, forbidden)"
proof -
  have "\<exists>acc'. for_each (build_section U) (tl (header_split U full)) ({}, {}) = Inr acc'"
    by (rule for_each_total) (rule build_section_total)
  with assms show ?thesis
    by (auto simp: build_lexicons_from_pdf_def then_do_def)
qed

text \<open>
  Claim C7. Given the text of the document, \<open>build_lexicons_from_pdf\<close> always returns a pair
  of sets and raises nothing, whatever rows the text holds; when the header pattern
  matches at no position of the text, both sets are empty; and a matched row whose headword
  is neither all upper case nor all lower case leaves both sets as they were.
\<close>

theorem build_never_fails:
  assumes "extract pdf_path = Inr full"
  shows "(\<exists>approved forbidden. build_lexicons_from_pdf U extract pdf_path = Inr (approved, forbidden))
       \<and> ((\<forall>i \<le> length full. header_match U full i = None)
            \<longrightarrow> build_lexicons_from_pdf U extract pdf_path = Inr ({}, {}))
       \<and> (\<forall>sec acc ms me g1s g1e g2.
            upper U (strip U (slice sec g1s g1e)) \<noteq> strip U (slice sec g1s g1e)
            \<and> lower U (strip U (slice sec g1s g1e)) \<noteq> strip U (slice sec g1s g1e)
            \<longrightarrow> classify_headword U sec acc (ms, me, (g1s, g1e), g2) = Inr acc)"
proof (intro conjI allI impI)
  show "\<exists>approved forbidden. build_lexicons_from_pdf U extract pdf_path = Inr (approved, forbidden)"
    using assms by (rule build_lexicons_total [of "extract" "pdf_path" "full" "U"])
next
  assume "\<forall>i \<le> length full. header_match U full i = None"
  then have "finditer (header_match U) full = []" by (simp add: finditer_empty_iff)
  then have "tl (header_split U full) = []" by (simp add: header_split_def)
  with assms show "build_lexicons_from_pdf U extract pdf_path = Inr ({}, {})"
    by (simp add: build_lexicons_from_pdf_def then_do_def)
next
  fix sec :: str and acc :: "str set \<times> str set" and ms me g1s g1e :: nat and g2 :: "nat \<times> nat"
  assume "upper U (strip U (slice sec g1s g1e)) \<noteq> strip U (slice sec g1s g1e)
            \<and> lower U (strip U (slice sec g1s g1e)) \<noteq> strip U (slice sec g1s g1e)"
  then show "classify_headword U sec acc (ms, me, (g1s, g1e), g2) = Inr acc"
    by (cases acc; cases g2) (simp add: classify_headword_def Let_def)
qed

lemma headless_no_header: "finditer (header_match ascii_db) headless_doc = []"
  by code_simp

lemma mixed_match: "headword_match ascii_db small_doc 57 = Some (73, (58, 69), (70, 71))"
  by code_simp

lemma mixed_case:
  "upper ascii_db (strip ascii_db (slice small_doc 58 69)) \<noteq> strip ascii_db (slice small_doc 58 69)
   \<and> lower ascii_db (strip ascii_db (slice small_doc 58 69)) \<noteq> strip ascii_db (slice small_doc 58 69)"
  by code_simp

theorem build_never_fails_witness:
  "headless_extract [] = Inr headless_doc
   \<and> finditer (header_match ascii_db) headless_doc = []
   \<and> build_lexicons_from_pdf ascii_db headless_extract [] = Inr ({}, {})
   \<and> headword_match ascii_db small_doc 57 = Some (73, (58, 69), (70, 71))
   \<and> upper ascii_db (strip ascii_db (slice small_doc 58 69)) \<noteq> strip ascii_db (slice small_doc 58 69)
   \<and> lower ascii_db (strip ascii_db (slice small_doc 58 69)) \<noteq> strip ascii_db (slice small_doc 58 69)
   \<and> classify_headword ascii_db small_doc ({}, {}) (57, 73, (58, 69), (70, 71)) = Inr ({}, {})"
proof -
  have e: "headless_extract [] = Inr headless_doc" by (simp add: headless_extract_def)
  have n: "\<forall>i \<le> length headless_doc. header_match ascii_db headless_doc i = None"
    using headless_no_header by (simp add: finditer_empty_iff)
  note mixed = mixed_case
  from build_never_fails [of headless_extract "[]" headless_doc ascii_db, OF e] e n mixed
    headless_no_header mixed_match
  show ?thesis by blast
qed

subsection \<open>Slices and ASCII case\<close>

lemma slice_Cons:
  assumes "a < b" and "a < length t"
  shows "slice t a b = t ! a # slice t (Suc a) b"
proof -
  from assms(2) have "drop a t = t ! a # drop (Suc a) t" by (simp add: Cons_nth_drop_Suc)
  moreover from assms(1) obtain d where "b - a = Suc d" "b - Suc a = d"
    by (cases "b - a") auto
  ultimately show ?thesis by (simp add: slice_def)
qed

lemma set_slice: "set (slice t a b) \<subseteq> set t"
  unfolding slice_def by (meson in_set_dropD in_set_takeD subsetI)

lemma set_strip: "set (strip U s) \<subseteq> set s"
proof
  fix c
  assume "c \<in> set (strip U s)"
  then have "c \<in> set (dropWhile (isspace U) (rev (dropWhile (isspace U) s)))"
    by (simp add: strip_def)
  then have "c \<in> set (rev (dropWhile (isspace U) s))" by (rule set_dropWhileD)
  then have "c \<in> set (dropWhile (isspace U) s)" by simp
  then show "c \<in> set s" by (rule set_dropWhileD)
qed

lemma list_all_strip: "list_all P s \<Longrightarrow> list_all P (strip U s)"
  using set_strip [of U s] by (auto simp: list_all_iff)


lemma letter_hw_char: "letter c \<Longrightarrow> hw_char c"
  by (simp add: hw_char_def)




subsection \<open>The groups of a headword match\<close>

lemma headword_match_group1:
  assumes "headword_match U sec i = Some (e, (g1s, g1e), g2)"
  shows "list_all hw_char (slice sec g1s g1e) \<and> sat sec g1s letter \<and> g1s < g1e"
proof -
  from assms have l: "sat sec (i + 1) letter"
    and g: "greedy hw_char 1 sec (i + 2) (\<lambda>g1.
             greedy (isspace U) 0 sec g1 (\<lambda>j.
               if match_lit (py ''('') sec j
               then greedy pos_char 1 sec (j + 1) (\<lambda>g2.
                      if match_lit (py '')'') sec g2 \<and> sat sec (g2 + 1) (isspace U)
                      then Some (g2 + 2, (i + 1, g1), (j + 1, g2)) else None)
               else None)) = Some (e, (g1s, g1e), g2)"
    by (auto simp: headword_match_def split: if_splits)
  from greedy_class [OF g] obtain g1 where g1: "i + 2 + 1 \<le> g1"
    and cls: "list_all hw_char (slice sec (i + 2) g1)"
    and k: "greedy (isspace U) 0 sec g1 (\<lambda>j.
               if match_lit (py ''('') sec j
               then greedy pos_char 1 sec (j + 1) (\<lambda>g2.
                      if match_lit (py '')'') sec g2 \<and> sat sec (g2 + 1) (isspace U)
                      then Some (g2 + 2, (i + 1, g1), (j + 1, g2)) else None)
               else None) = Some (e, (g1s, g1e), g2)"
    by blast
  from greedy_Some [OF k] obtain j where
    "greedy pos_char 1 sec (j + 1) (\<lambda>g2.
        if match_lit (py '')'') sec g2 \<and> sat sec (g2 + 1) (isspace U)
        then Some (g2 + 2, (i + 1, g1), (j + 1, g2)) else None) = Some (e, (g1s, g1e), g2)"
    by (auto split: if_splits)
  from greedy_Some [OF this] have eq: "g1s = i + 1" "g1e = g1"
    by (auto split: if_splits)
  from l have "i + 1 < length sec" "letter (sec ! (i + 1))" by (simp_all add: sat_def)
  with g1 have "slice sec (i + 1) g1 = sec ! (i + 1) # slice sec (i + 2) g1"
    using slice_Cons [of "i + 1" g1 sec] by simp
  with cls \<open>letter (sec ! (i + 1))\<close> have "list_all hw_char (slice sec (i + 1) g1)"
    by (simp add: letter_hw_char)
  with eq l g1 show ?thesis by simp
qed

subsection \<open>Every derived form has an uppercase letter\<close>

lemma upper_suffix [simp]:
  "list_ex upper_AZ (py ''ES'')" "list_ex upper_AZ (py ''IES'')" "list_ex upper_AZ (py ''S'')"
  "list_ex upper_AZ (py ''D'')" "list_ex upper_AZ (py ''ED'')" "list_ex upper_AZ (py ''YING'')"
  "list_ex upper_AZ (py ''ING'')"
  by (simp_all add: py_def upper_AZ_def)







subsection \<open>Approved and forbidden words never meet\<close>













subsection \<open>Words that make lines\<close>

lemma in_set_dropWhile:
  "x \<in> set xs \<Longrightarrow> \<not> P x \<Longrightarrow> x \<in> set (dropWhile P xs)"
  by (induction xs) auto

lemma letter_not_space: "letter c \<Longrightarrow> \<not> isspace U c"
  by (auto simp: letter_def upper_AZ_def lower_az_def isspace_def is_ascii_def)

lemma wordlike_no_newline: "wordlike w \<Longrightarrow> 10 \<notin> set w"
  by (auto simp: wordlike_def list_all_iff hw_char_def letter_def upper_AZ_def lower_az_def digit_def)

lemma wordlike_not_blank:
  assumes "wordlike w"
  shows "strip U w \<noteq> []"
proof -
  from assms obtain c where c: "c \<in> set w" "letter c" by (auto simp: wordlike_def list_ex_iff)
  then have ns: "\<not> isspace U c" by (simp add: letter_not_space)
  from c(1) ns have "c \<in> set (dropWhile (isspace U) w)" by (rule in_set_dropWhile)
  then have "c \<in> set (rev (dropWhile (isspace U) w))" by simp
  from this ns have "c \<in> set (dropWhile (isspace U) (rev (dropWhile (isspace U) w)))"
    by (rule in_set_dropWhile)
  then have "dropWhile (isspace U) (rev (dropWhile (isspace U) w)) \<noteq> []"
    by (metis empty_iff empty_set)
  then show ?thesis by (simp add: strip_def)
qed

lemma split_at_newline:
  "10 \<notin> set w \<Longrightarrow>
     dropWhile (\<lambda>c. c \<noteq> 10) (w @ 10 # r) = 10 # r \<and> takeWhile (\<lambda>c. c \<noteq> 10) (w @ 10 # r) = w"
  by (induction w) auto

lemma lines_of_file_of_lines:
  assumes "\<forall>w \<in> set ws. 10 \<notin> set w"
  shows "lines_of (file_of_lines ws) = map (\<lambda>w. w @ [10]) ws"
  using assms
proof (induction ws)
  case Nil
  then show ?case by (simp add: file_of_lines_def lines_of.simps [of "[]"])
next
  case (Cons w ws)
  let ?s = "w @ 10 # file_of_lines ws"
  from Cons.prems have nl: "10 \<notin> set w" by simp
  then have d: "dropWhile (\<lambda>c. c \<noteq> 10) ?s = 10 # file_of_lines ws"
    and t: "takeWhile (\<lambda>c. c \<noteq> 10) ?s = w"
    using split_at_newline [of w "file_of_lines ws"] by simp_all
  have "lines_of ?s = (w @ [10]) # lines_of (file_of_lines ws)"
    using d t by (simp add: lines_of.simps [of ?s])
  with Cons show ?case by (simp add: file_of_lines_def)
qed

subsection \<open>Every word of the build is word-like\<close>

lemma wordlike_suffix [simp]:
  "list_all hw_char (py ''ES'')" "list_all hw_char (py ''IES'')" "list_all hw_char (py ''S'')"
  "list_all hw_char (py ''D'')" "list_all hw_char (py ''ED'')" "list_all hw_char (py ''YING'')"
  "list_all hw_char (py ''ING'')"
  "list_ex letter (py ''ES'')" "list_ex letter (py ''IES'')" "list_ex letter (py ''S'')"
  "list_ex letter (py ''D'')" "list_ex letter (py ''ED'')" "list_ex letter (py ''YING'')"
  "list_ex letter (py ''ING'')"
  by (simp_all add: py_def hw_char_def letter_def upper_AZ_def)

lemma list_all_butlast: "list_all P xs \<Longrightarrow> list_all P (butlast xs)"
  by (auto simp: list_all_iff dest: in_set_butlastD)

lemma list_all_take: "list_all P xs \<Longrightarrow> list_all P (take n xs)"
  by (auto simp: list_all_iff dest: in_set_takeD)

lemma neg_index_class: "neg_index b k = Inr c \<Longrightarrow> list_all P b \<Longrightarrow> P c"
  by (auto simp: neg_index_def list_all_iff split: if_splits)

lemma third_singular_wordlike:
  "third_singular U b low = Inr t \<Longrightarrow> list_all hw_char b \<Longrightarrow> wordlike t"
  by (auto simp: third_singular_def then_do_def wordlike_def list_all_butlast split: if_splits sum.splits)

lemma past_form_wordlike:
  "past_form U b low = Inr p \<Longrightarrow> list_all hw_char b \<Longrightarrow> wordlike p"
  by (auto simp: past_form_def then_do_def wordlike_def
      dest: neg_index_class split: if_splits sum.splits)

lemma ing_form_wordlike:
  "ing_form U b low = Inr g \<Longrightarrow> list_all hw_char b \<Longrightarrow> wordlike g"
  by (auto simp: ing_form_def then_do_def wordlike_def list_all_butlast list_all_take
        dest: neg_index_class split: if_splits sum.splits)

lemma verb_inflections_wordlike:
  assumes "verb_inflections U b = Inr forms" and "wordlike b"
  shows "finite forms \<and> (\<forall>w \<in> forms. wordlike w)"
proof -
  from assms(1) obtain t p g where "third_singular U b (lower U b) = Inr t"
    "past_form U b (lower U b) = Inr p" "ing_form U b (lower U b) = Inr g" "forms = {b, t, p, g}"
    by (auto simp: verb_inflections_def then_do_def Let_def split: sum.splits)
  moreover from assms(2) have "list_all hw_char b" by (simp add: wordlike_def)
  ultimately show ?thesis
    using assms(2) third_singular_wordlike past_form_wordlike ing_form_wordlike by auto
qed

lemma plural_forms_wordlike:
  assumes "plural_forms U b = Inr forms" and "wordlike b"
  shows "finite forms \<and> (\<forall>w \<in> forms. wordlike w)"
  using assms
  by (auto simp: plural_forms_def then_do_def Let_def wordlike_def list_all_butlast
      split: if_splits sum.splits)


lemma classify_headword_wordlike:
  assumes "classify_headword U sec acc m = Inr acc'"
    and "headword_match U sec (fst m) = Some (snd m)"
    and "all_wordlike acc"
  shows "all_wordlike acc'"
proof -
  obtain approved forbidden where acc: "acc = (approved, forbidden)" by (cases acc)
  obtain ms me g1s g1e g2s g2e where m: "m = (ms, me, (g1s, g1e), (g2s, g2e))"
    by (cases m) auto
  let ?hw = "strip U (slice sec g1s g1e)"
  from assms(2) m have "list_all hw_char (slice sec g1s g1e)"
    using headword_match_group1 [of U sec ms me g1s g1e "(g2s, g2e)"] by simp
  then have chars: "list_all hw_char ?hw" by (rule list_all_strip)
  show ?thesis
  proof (cases "list_ex letter ?hw")
    case False
    with assms(1,3) acc m show ?thesis by (simp add: classify_headword_def Let_def)
  next
    case True
    with chars have hw: "wordlike ?hw" by (simp add: wordlike_def)
    from assms(1) acc m True consider
      forms where "verb_inflections U ?hw = Inr forms" "acc' = (approved \<union> forms, forbidden)"
      | forms where "plural_forms U ?hw = Inr forms" "acc' = (approved \<union> forms, forbidden)"
      | "acc' = (insert ?hw approved, forbidden)"
      | "acc' = (approved, insert ?hw forbidden)"
      | "acc' = acc"
      by (auto simp: classify_headword_def Let_def then_do_def split: if_splits sum.splits)
    then show ?thesis
    proof cases
      case 1
      with assms(3) acc verb_inflections_wordlike [OF 1(1) hw] show ?thesis
        by (auto simp: all_wordlike_def)
    next
      case 2
      with assms(3) acc plural_forms_wordlike [OF 2(1) hw] show ?thesis
        by (auto simp: all_wordlike_def)
    next
      case 3
      with assms(3) acc hw show ?thesis by (auto simp: all_wordlike_def)
    next
      case 4
      with assms(3) acc hw show ?thesis by (auto simp: all_wordlike_def)
    next
      case 5
      with assms(3) show ?thesis by simp
    qed
  qed
qed

lemma build_section_wordlike:
  assumes "build_section U acc sec = Inr acc'" and "all_wordlike acc"
  shows "all_wordlike acc'"
proof (rule for_each_invariant [where P = all_wordlike, OF assms(1) [unfolded build_section_def] assms(2)])
  fix s x s'
  assume inv: "all_wordlike s" and x: "x \<in> set (finditer (headword_match U) sec)"
    and step: "classify_headword U sec s x = Inr s'"
  from x have "headword_match U sec (fst x) = Some (snd x)"
    using finditer_from_members [of x "headword_match U" sec 0] by (simp add: finditer_def)
  from classify_headword_wordlike [OF step this inv] show "all_wordlike s'" .
qed

lemma build_lexicons_wordlike:
  assumes "build_lexicons_from_pdf U extract pdf_path = Inr (approved, forbidden)"
  shows "all_wordlike (approved, forbidden)"
proof -
  from assms obtain full where
    loop: "for_each (build_section U) (tl (header_split U full)) ({}, {}) = Inr (approved, forbidden)"
    by (auto simp: build_lexicons_from_pdf_def then_do_def split: sum.splits)
  show ?thesis
  proof (rule for_each_invariant [where P = all_wordlike, OF loop])
    show "all_wordlike ({}, {})" by (simp add: all_wordlike_def)
  next
    fix s x s'
    assume inv: "all_wordlike s" and step: "build_section U s x = Inr s'"
    from build_section_wordlike [OF step inv] show "all_wordlike s'" .
  qed
qed

lemma caps_char_hw_char: "caps_char c \<Longrightarrow> hw_char c"
  by (auto simp: caps_char_def hw_char_def letter_def)

lemma allcaps_match_wordlike:
  assumes "allcaps_match U inp i = Some (e, g)"
  shows "wordlike (slice inp i e)"
proof -
  from assms have u: "sat inp i upper_AZ"
    and gr: "greedy caps_char 2 inp (i + 1) (\<lambda>j. if boundary U inp j then Some (j, ()) else None)
              = Some (e, g)"
    by (auto simp: allcaps_match_def split: if_splits)
  from greedy_class [OF gr] obtain j where "i + 1 + 2 \<le> j"
    "(if boundary U inp j then Some (j, ()) else None) = Some (e, g)"
    "list_all caps_char (slice inp (i + 1) j)" by blast
  then have e: "i + 3 \<le> e" and cls: "list_all caps_char (slice inp (i + 1) e)"
    by (auto split: if_splits)
  from u have "i < length inp" "upper_AZ (inp ! i)" by (simp_all add: sat_def)
  with e have "slice inp i e = inp ! i # slice inp (Suc i) e"
    using slice_Cons [of i e inp] by simp
  moreover from cls have "list_all hw_char (slice inp (Suc i) e)"
    by (auto simp: list_all_iff caps_char_hw_char)
  ultimately show ?thesis using \<open>upper_AZ (inp ! i)\<close>
    by (simp add: wordlike_def letter_def hw_char_def)
qed

lemma all_caps_wordlike:
  assumes "extract_all_caps_words U extract pdf_path = Inr allcaps"
  shows "finite allcaps \<and> (\<forall>w \<in> allcaps. wordlike w)"
proof -
  from assms obtain inp where
    caps: "allcaps = set (filter (\<lambda>m. \<not> isdigit U m \<and> \<not> List.member table_labels m)
                   (map (\<lambda>(s, e, g). slice inp s e) (finditer (allcaps_match U) inp)))"
    by (auto simp: extract_all_caps_words_def then_do_def split: sum.splits)
  have "wordlike w" if "w \<in> allcaps" for w
  proof -
    from that caps obtain s e g where m: "(s, e, g) \<in> set (finditer (allcaps_match U) inp)"
      and w: "w = slice inp s e" by auto
    from m have "allcaps_match U inp s = Some (e, g)"
      using finditer_from_members [of "(s, e, g)" "allcaps_match U" inp 0] by (simp add: finditer_def)
    with w show ?thesis by (simp add: allcaps_match_wordlike)
  qed
  with caps show ?thesis by simp
qed

subsection \<open>The files that a build writes\<close>

lemma write_wordlist_lines:
  assumes "finite ws" and "\<forall>w \<in> ws. wordlike w"
  shows "\<exists>ls. write_wordlist ws = file_of_lines ls
          \<and> lines_of (file_of_lines ls) = map (\<lambda>w. w @ [10]) ls
          \<and> sorted ls \<and> distinct ls \<and> set ls = ws \<and> list_all (\<lambda>w. strip U w \<noteq> []) ls"
proof -
  let ?ls = "sorted_list_of_set ws"
  from assms(1) have set: "set ?ls = ws" by simp
  with assms(2) have "\<forall>w \<in> set ?ls. 10 \<notin> set w" by (simp add: wordlike_no_newline)
  then have "lines_of (file_of_lines ?ls) = map (\<lambda>w. w @ [10]) ?ls"
    by (rule lines_of_file_of_lines)
  moreover have "list_all (\<lambda>w. strip U w \<noteq> []) ?ls"
    using set assms(2) by (simp add: list_all_iff wordlike_not_blank)
  moreover have "write_wordlist ws = file_of_lines ?ls"
    by (simp add: write_wordlist_def file_of_lines_def)
  ultimately show ?thesis using set by (metis sorted_list_of_set.sorted_sorted_key_list_of_set
        sorted_list_of_set.distinct_sorted_key_list_of_set)
qed

lemma ensure_wordlists_builds:
  assumes "extract pdf_path = Inr full"
    and "path_exists fs pdf_path"
    and "\<not> (path_exists fs approved_path \<and> path_exists fs forbidden_path \<and> path_exists fs allcaps_path)"
  shows "\<exists>approved forbidden allcaps.
           build_lexicons_from_pdf U extract pdf_path = Inr (approved, forbidden)
         \<and> extract_all_caps_words U extract pdf_path = Inr allcaps
         \<and> ensure_wordlists U extract fs approved_path forbidden_path allcaps_path pdf_path
             = Inr (fs(approved_path \<mapsto> write_wordlist approved,
                       forbidden_path \<mapsto> write_wordlist forbidden,
                       allcaps_path \<mapsto> write_wordlist allcaps))"
proof -
  from build_lexicons_total [of "extract" "pdf_path" "full" "U", OF assms(1)]
  obtain approved forbidden where
    b: "build_lexicons_from_pdf U extract pdf_path = Inr (approved, forbidden)" by blast
  from assms(1) obtain allcaps where c: "extract_all_caps_words U extract pdf_path = Inr allcaps"
    by (simp add: extract_all_caps_words_def then_do_def)
  from assms(2,3) b c show ?thesis
    by (auto simp: ensure_wordlists_def then_do_def Let_def)
qed


text \<open>
  Claim C8. Two builds from the same document text, each on a file system where the
  document exists and at least one of the three word lists is missing, compute the same
  approved, forbidden and ALL-CAPS sets and both succeed; each of the three files has the
  same content after both; and that content is a list of lines, one word and a newline
  each, in strictly ascending order (sorted, no duplicate), none of them blank.
\<close>

theorem rebuild_wordlists:
  assumes "extract pdf_path = Inr full" and "extract2 pdf_path2 = Inr full"
    and "path_exists fs pdf_path" and "path_exists fs2 pdf_path2"
    and "\<not> (path_exists fs approved_path \<and> path_exists fs forbidden_path \<and> path_exists fs allcaps_path)"
    and "\<not> (path_exists fs2 approved_path \<and> path_exists fs2 forbidden_path \<and> path_exists fs2 allcaps_path)"
    and "p = approved_path \<or> p = forbidden_path \<or> p = allcaps_path"
  shows "build_lexicons_from_pdf U extract pdf_path = build_lexicons_from_pdf U extract2 pdf_path2
       \<and> extract_all_caps_words U extract pdf_path = extract_all_caps_words U extract2 pdf_path2
       \<and> (\<exists>out out2 ls.
             ensure_wordlists U extract fs approved_path forbidden_path allcaps_path pdf_path = Inr out
           \<and> ensure_wordlists U extract2 fs2 approved_path forbidden_path allcaps_path pdf_path2 = Inr out2
           \<and> out p = out2 p
           \<and> out p = Some (file_of_lines ls)
           \<and> lines_of (file_of_lines ls) = map (\<lambda>w. w @ [10]) ls
           \<and> sorted ls \<and> distinct ls
           \<and> list_all (\<lambda>w. strip U w \<noteq> []) ls)"
proof -
  have same_build: "build_lexicons_from_pdf U extract pdf_path = build_lexicons_from_pdf U extract2 pdf_path2"
    using assms(1,2) by (simp add: build_lexicons_from_pdf_def)
  have same_caps: "extract_all_caps_words U extract pdf_path = extract_all_caps_words U extract2 pdf_path2"
    using assms(1,2) by (simp add: extract_all_caps_words_def)
  from ensure_wordlists_builds [of "extract" "pdf_path" "full" "fs", OF assms(1,3,5), of U]
  obtain approved forbidden allcaps where
    b: "build_lexicons_from_pdf U extract pdf_path = Inr (approved, forbidden)"
    and c: "extract_all_caps_words U extract pdf_path = Inr allcaps"
    and run: "ensure_wordlists U extract fs approved_path forbidden_path allcaps_path pdf_path
             = Inr (fs(approved_path \<mapsto> write_wordlist approved,
                       forbidden_path \<mapsto> write_wordlist forbidden,
                       allcaps_path \<mapsto> write_wordlist allcaps))"
    by blast
  from ensure_wordlists_builds [of "extract2" "pdf_path2" "full" "fs2", OF assms(2,4,6), of U]
    b c same_build same_caps
  have run2: "ensure_wordlists U extract2 fs2 approved_path forbidden_path allcaps_path pdf_path2
             = Inr (fs2(approved_path \<mapsto> write_wordlist approved,
                        forbidden_path \<mapsto> write_wordlist forbidden,
                        allcaps_path \<mapsto> write_wordlist allcaps))"
    by auto
  let ?out = "fs(approved_path \<mapsto> write_wordlist approved,
                 forbidden_path \<mapsto> write_wordlist forbidden,
                 allcaps_path \<mapsto> write_wordlist allcaps)"
  let ?out2 = "fs2(approved_path \<mapsto> write_wordlist approved,
                   forbidden_path \<mapsto> write_wordlist forbidden,
                   allcaps_path \<mapsto> write_wordlist allcaps)"
  from build_lexicons_wordlike [OF b] have wl: "finite approved" "finite forbidden"
    "\<forall>w \<in> approved. wordlike w" "\<forall>w \<in> forbidden. wordlike w"
    by (auto simp: all_wordlike_def)
  from all_caps_wordlike [OF c] have wc: "finite allcaps" "\<forall>w \<in> allcaps. wordlike w" by simp_all
  from assms(7) obtain ws where ws: "finite ws" "\<forall>w \<in> ws. wordlike w"
    "?out p = Some (write_wordlist ws)" "?out2 p = Some (write_wordlist ws)"
    using wl wc by (cases "p = allcaps_path"; cases "p = forbidden_path") auto
  from write_wordlist_lines [OF ws(1,2), of U] obtain ls where
    "write_wordlist ws = file_of_lines ls" "lines_of (file_of_lines ls) = map (\<lambda>w. w @ [10]) ls"
    "sorted ls" "distinct ls" "list_all (\<lambda>w. strip U w \<noteq> []) ls"
    by blast
  with ws(3,4) run run2 have "\<exists>out out2 ls.
             ensure_wordlists U extract fs approved_path forbidden_path allcaps_path pdf_path = Inr out
           \<and> ensure_wordlists U extract2 fs2 approved_path forbidden_path allcaps_path pdf_path2 = Inr out2
           \<and> out p = out2 p
           \<and> out p = Some (file_of_lines ls)
           \<and> lines_of (file_of_lines ls) = map (\<lambda>w. w @ [10]) ls
           \<and> sorted ls \<and> distinct ls
           \<and> list_all (\<lambda>w. strip U w \<noteq> []) ls"
    by (intro exI [of _ ?out] exI [of _ ?out2] exI [of _ ls]) simp
  with same_build same_caps show ?thesis by blast
qed

lemma small_caps: "extract_all_caps_words ascii_db small_extract (py ''ste.pdf'') = Inr {py ''ABORT''}"
  by code_simp

lemma small_written:
  "write_wordlist {py ''ABORT'', py ''ABORTS'', py ''ABORTED'', py ''ABORTING''}
     = py ''ABORT\<newline>ABORTED\<newline>ABORTING\<newline>ABORTS\<newline>''"
  "write_wordlist {py ''abandon''} = py ''abandon\<newline>''"
  by code_simp+

lemma small_build_pdf:
  "build_lexicons_from_pdf ascii_db small_extract (py ''ste.pdf'')
     = Inr ({py ''ABORT'', py ''ABORTS'', py ''ABORTED'', py ''ABORTING''}, {py ''abandon''})"
  by code_simp

lemma small_rebuild:
  "ensure_wordlists ascii_db small_extract stale_fs (py ''approved.txt'') (py ''forbidden.txt'')
     (py ''allcaps.txt'') (py ''ste.pdf'')
   = Inr (stale_fs(py ''approved.txt'' \<mapsto> py ''ABORT\<newline>ABORTED\<newline>ABORTING\<newline>ABORTS\<newline>'',
                  py ''forbidden.txt'' \<mapsto> py ''abandon\<newline>'',
                  py ''allcaps.txt'' \<mapsto> py ''ABORT\<newline>''))"
proof -
  have "path_exists stale_fs (py ''ste.pdf'')" "\<not> path_exists stale_fs (py ''approved.txt'')"
    by code_simp+
  moreover have "write_wordlist {py ''ABORT''} = py ''ABORT\<newline>''" by code_simp
  ultimately show ?thesis
    by (simp add: ensure_wordlists_def small_build_pdf small_caps small_written then_do_def)
qed

theorem rebuild_wordlists_witness:
  "small_extract (py ''ste.pdf'') = Inr small_doc
   \<and> path_exists build_fs (py ''ste.pdf'') \<and> path_exists stale_fs (py ''ste.pdf'')
   \<and> \<not> (path_exists build_fs (py ''approved.txt'') \<and> path_exists build_fs (py ''forbidden.txt'')
         \<and> path_exists build_fs (py ''allcaps.txt''))
   \<and> \<not> (path_exists stale_fs (py ''approved.txt'') \<and> path_exists stale_fs (py ''forbidden.txt'')
         \<and> path_exists stale_fs (py ''allcaps.txt''))
   \<and> (\<exists>out out2 ls.
         ensure_wordlists ascii_db small_extract build_fs (py ''approved.txt'') (py ''forbidden.txt'')
           (py ''allcaps.txt'') (py ''ste.pdf'') = Inr out
       \<and> ensure_wordlists ascii_db small_extract stale_fs (py ''approved.txt'') (py ''forbidden.txt'')
           (py ''allcaps.txt'') (py ''ste.pdf'') = Inr out2
       \<and> out (py ''forbidden.txt'') = out2 (py ''forbidden.txt'')
       \<and> out (py ''forbidden.txt'') = Some (file_of_lines ls)
       \<and> lines_of (file_of_lines ls) = map (\<lambda>w. w @ [10]) ls
       \<and> sorted ls \<and> distinct ls
       \<and> list_all (\<lambda>w. strip ascii_db w \<noteq> []) ls)
   \<and> ensure_wordlists ascii_db small_extract stale_fs (py ''approved.txt'') (py ''forbidden.txt'')
        (py ''allcaps.txt'') (py ''ste.pdf'')
      = Inr (stale_fs(py ''approved.txt'' \<mapsto> py ''ABORT\<newline>ABORTED\<newline>ABORTING\<newline>ABORTS\<newline>'',
                     py ''forbidden.txt'' \<mapsto> py ''abandon\<newline>'',
                     py ''allcaps.txt'' \<mapsto> py ''ABORT\<newline>''))"
proof -
  have e: "small_extract (py ''ste.pdf'') = Inr small_doc" by (simp add: small_extract_def)
  have p1: "path_exists build_fs (py ''ste.pdf'')" and p2: "path_exists stale_fs (py ''ste.pdf'')"
    by code_simp+
  have n1: "\<not> (path_exists build_fs (py ''approved.txt'') \<and> path_exists build_fs (py ''forbidden.txt'')
         \<and> path_exists build_fs (py ''allcaps.txt''))"
    and n2: "\<not> (path_exists stale_fs (py ''approved.txt'') \<and> path_exists stale_fs (py ''forbidden.txt'')
         \<and> path_exists stale_fs (py ''allcaps.txt''))"
    by code_simp+
  from rebuild_wordlists [of "small_extract" "py ''ste.pdf''" "small_doc" "small_extract" "py ''ste.pdf''"
      "build_fs" "stale_fs" "py ''approved.txt''" "py ''forbidden.txt''" "py ''allcaps.txt''"
      "py ''forbidden.txt''" "ascii_db", OF e e p1 p2 n1 n2]
    e p1 p2 n1 n2 small_rebuild show ?thesis by blast
qed

end
